theory Spec2Isabelle
  imports Complex_Main "HOL-Library.Sublist" "HOL-Library.Word"
begin

section \<open>The file system seen by the server\<close>

text \<open>
  Both modules of the service (\<^verbatim>\<open>down_zip.py\<close>, \<^verbatim>\<open>server_down.py\<close>) act on the
  file system through \<^verbatim>\<open>os.path\<close>, \<^verbatim>\<open>os.walk\<close>, \<^verbatim>\<open>os.remove\<close>, \<^verbatim>\<open>open\<close> and
  \<^verbatim>\<open>zipfile\<close>. The file system is a tree. A path is the list of its components
  (\<^verbatim>\<open>os.path.join\<close> appends a component, \<^verbatim>\<open>os.path.dirname\<close> drops the last one).
  Time stamps are seconds as real numbers. A regular file carries its creation time
  (\<^verbatim>\<open>os.path.getctime\<close>) and its bytes; a directory carries its creation time, the size
  the operating system reports for it, and its entries in listing order.
\<close>

type_synonym byte = "8 word"
type_synonym path = "string list"

datatype node =
    File real "byte list"
  | Dir real nat "(string \<times> node) list"

text \<open>The exceptions the modelled library calls raise.\<close>

datatype exn =
    FileNotFoundError path
  | PermissionError path
  | TimeoutExpired
  | OSError string
  | OverflowError
  | UnicodeEncodeError

fun lookup :: "node \<Rightarrow> path \<Rightarrow> node option"
  and lookup_in :: "(string \<times> node) list \<Rightarrow> string \<Rightarrow> path \<Rightarrow> node option" where
  "lookup n [] = Some n"
| "lookup (File c d) (k # ks) = None"
| "lookup (Dir c s es) (k # ks) = lookup_in es k ks"
| "lookup_in [] k ks = None"
| "lookup_in ((k', n) # es) k ks = (if k' = k then lookup n ks else lookup_in es k ks)"

definition path_exists :: "node \<Rightarrow> path \<Rightarrow> bool" where
  "path_exists fs p = (lookup fs p \<noteq> None)"

fun node_size :: "node \<Rightarrow> nat" where
  "node_size (File c d) = length d"
| "node_size (Dir c s es) = s"

fun node_ctime :: "node \<Rightarrow> real" where
  "node_ctime (File c d) = c"
| "node_ctime (Dir c s es) = c"

definition getsize :: "node \<Rightarrow> path \<Rightarrow> exn + nat" where
  "getsize fs p = (case lookup fs p of None \<Rightarrow> Inl (FileNotFoundError p) | Some n \<Rightarrow> Inr (node_size n))"

definition getctime :: "node \<Rightarrow> path \<Rightarrow> exn + real" where
  "getctime fs p = (case lookup fs p of None \<Rightarrow> Inl (FileNotFoundError p) | Some n \<Rightarrow> Inr (node_ctime n))"

text \<open>
  \<^verbatim>\<open>open(p, 'wb')\<close> followed by writing \<open>d\<close> and closing: the parent must be a
  directory; an existing regular file is truncated and keeps its creation time, a new
  file is created at time \<open>now\<close>, and a directory at \<open>p\<close> cannot be opened.
\<close>

fun write_file :: "node \<Rightarrow> path \<Rightarrow> path \<Rightarrow> real \<Rightarrow> byte list \<Rightarrow> exn + node"
  and write_in :: "(string \<times> node) list \<Rightarrow> string \<Rightarrow> path \<Rightarrow> path \<Rightarrow> real \<Rightarrow> byte list
        \<Rightarrow> exn + (string \<times> node) list" where
  "write_file n [] full now d = Inl (PermissionError full)"
| "write_file (File c d') (k # ks) full now d = Inl (FileNotFoundError full)"
| "write_file (Dir c s es) (k # ks) full now d =
     (case write_in es k ks full now d of Inl e \<Rightarrow> Inl e | Inr es' \<Rightarrow> Inr (Dir c s es'))"
| "write_in [] k ks full now d =
     (if ks = [] then Inr [(k, File now d)] else Inl (FileNotFoundError full))"
| "write_in ((k', n) # es) k ks full now d =
     (if k' = k then
        (case ks of
           [] \<Rightarrow> (case n of File c d' \<Rightarrow> Inr ((k', File c d) # es)
                           | Dir c s es' \<Rightarrow> Inl (PermissionError full))
         | _ # _ \<Rightarrow> (case write_file n ks full now d of Inl e \<Rightarrow> Inl e
                           | Inr n' \<Rightarrow> Inr ((k', n') # es)))
      else (case write_in es k ks full now d of Inl e \<Rightarrow> Inl e
                           | Inr es' \<Rightarrow> Inr ((k', n) # es')))"

text \<open>\<^verbatim>\<open>os.remove(p)\<close>: deletes a regular file; a directory or a missing path raises.\<close>

fun os_remove :: "node \<Rightarrow> path \<Rightarrow> path \<Rightarrow> exn + node"
  and remove_in :: "(string \<times> node) list \<Rightarrow> string \<Rightarrow> path \<Rightarrow> path \<Rightarrow> exn + (string \<times> node) list" where
  "os_remove n [] full = Inl (PermissionError full)"
| "os_remove (File c d) (k # ks) full = Inl (FileNotFoundError full)"
| "os_remove (Dir c s es) (k # ks) full =
     (case remove_in es k ks full of Inl e \<Rightarrow> Inl e | Inr es' \<Rightarrow> Inr (Dir c s es'))"
| "remove_in [] k ks full = Inl (FileNotFoundError full)"
| "remove_in ((k', n) # es) k ks full =
     (if k' = k then
        (case ks of
           [] \<Rightarrow> (case n of File c d \<Rightarrow> Inr (filter (\<lambda>e. fst e \<noteq> k) es)
                           | Dir c s es' \<Rightarrow> Inl (PermissionError full))
         | _ # _ \<Rightarrow> (case os_remove n ks full of Inl e \<Rightarrow> Inl e
                           | Inr n' \<Rightarrow> Inr ((k', n') # es)))
      else (case remove_in es k ks full of Inl e \<Rightarrow> Inl e
                           | Inr es' \<Rightarrow> Inr ((k', n) # es')))"

text \<open>\<^verbatim>\<open>open(p, 'rb')\<close> and reading to the end.\<close>

definition read_file :: "node \<Rightarrow> path \<Rightarrow> exn + byte list" where
  "read_file fs p =
     (case lookup fs p of
        None \<Rightarrow> Inl (FileNotFoundError p)
      | Some (File c d) \<Rightarrow> Inr d
      | Some (Dir c s es) \<Rightarrow> Inl (PermissionError p))"

definition isdir :: "node \<Rightarrow> path \<Rightarrow> bool" where
  "isdir fs p = (case lookup fs p of Some (Dir c s es) \<Rightarrow> True | _ \<Rightarrow> False)"


text \<open>In a well-formed tree the names inside one directory are pairwise distinct.\<close>

fun wf_node :: "node \<Rightarrow> bool"
  and wf_entries :: "(string \<times> node) list \<Rightarrow> bool" where
  "wf_node (File c d) = True"
| "wf_node (Dir c s es) = (distinct (map fst es) \<and> wf_entries es)"
| "wf_entries [] = True"
| "wf_entries ((k, n) # es) = (wf_node n \<and> wf_entries es)"

text \<open>
  \<^verbatim>\<open>os.listdir\<close>, \<^verbatim>\<open>os.path.dirname\<close> and \<^verbatim>\<open>os.path.relpath\<close> on component lists.
  \<^verbatim>\<open>relpath\<close> drops the components the two paths share at the front and climbs out of
  what is left of the start path; components are compared as they are written.
\<close>

definition listdir :: "node \<Rightarrow> path \<Rightarrow> string list" where
  "listdir fs p = (case lookup fs p of Some (Dir c s es) \<Rightarrow> map fst es | _ \<Rightarrow> [])"

definition dirname :: "path \<Rightarrow> path" where
  "dirname p = butlast p"

definition relpath :: "path \<Rightarrow> path \<Rightarrow> path" where
  "relpath p start =
     (let common = longest_common_prefix start p
      in replicate (length start - length common) ''..'' @ drop (length common) p)"

text \<open>
  \<^verbatim>\<open>os.walk(top)\<close>, top-down: one triple (directory, names of its sub-directories, its
  files) per directory reached, the directory itself first, then its sub-directories in
  listing order. Each file name comes with the bytes that \<^verbatim>\<open>ZipFile.write\<close> reads from
  it. Walking a path that is not a directory yields nothing.
\<close>

fun dirnames :: "(string \<times> node) list \<Rightarrow> string list" where
  "dirnames [] = []"
| "dirnames ((k, File c d) # es) = dirnames es"
| "dirnames ((k, Dir c s es') # es) = k # dirnames es"

fun filenames :: "(string \<times> node) list \<Rightarrow> (string \<times> byte list) list" where
  "filenames [] = []"
| "filenames ((k, File c d) # es) = (k, d) # filenames es"
| "filenames ((k, Dir c s es') # es) = filenames es"

fun os_walk :: "path \<Rightarrow> node \<Rightarrow> (path \<times> string list \<times> (string \<times> byte list) list) list"
  and walk_subdirs :: "path \<Rightarrow> (string \<times> node) list
        \<Rightarrow> (path \<times> string list \<times> (string \<times> byte list) list) list" where
  "os_walk dir (File c d) = []"
| "os_walk dir (Dir c s es) = (dir, dirnames es, filenames es) # walk_subdirs dir es"
| "walk_subdirs dir [] = []"
| "walk_subdirs dir ((k, n) # es) = os_walk (dir @ [k]) n @ walk_subdirs dir es"


section \<open>Text produced by the service\<close>

text \<open>
  The source builds its console lines, result messages and response texts with f-strings
  around Chinese literals. Each such text is one constructor of \<open>message\<close> holding the
  interpolated values, in the order of the source; \<open>MsgText\<close> is a literal ASCII text.
\<close>

datatype message =
    MsgText string
  | MsgUnsupportedFolder string
  | MsgFolderMissing path
  | MsgCompressStart path path
  | MsgCompressed string nat nat
  | MsgCompressFailed exn
  | MsgDeletedOld string
  | MsgCleaned nat
  | MsgCleanupError exn
  | MsgDownloaded string
  | MsgDownloadFailed exn
  | MsgStarted string
  | MsgScriptStart string
  | MsgScriptDone string
  | MsgOutput string
  | MsgCompressResult message
  | MsgStderr string
  | MsgTimeout string
  | MsgScriptError exn

text \<open>\<^verbatim>\<open>str(n)\<close> for a natural number, and the zero padding of \<^verbatim>\<open>%0wd\<close>.\<close>

definition digit :: "nat \<Rightarrow> char" where
  "digit n = char_of (of_char CHR ''0'' + n)"

function str_nat :: "nat \<Rightarrow> string" where
  "str_nat n = (if n < 10 then [digit n] else str_nat (n div 10) @ [digit (n mod 10)])"
  by pat_completeness auto
termination
  by (relation "measure id") auto

declare str_nat.simps [simp del]

definition zpad :: "nat \<Rightarrow> nat \<Rightarrow> string" where
  "zpad w n = replicate (w - length (str_nat n)) CHR ''0'' @ str_nat n"

section \<open>Module \<^verbatim>\<open>down_zip\<close>: the archive manager and the retention manager\<close>

definition zips_path :: path where
  "zips_path = [''D:'', ''pyCharmProject'', ''AutoViewScript'', ''zip'']"

record file_manager =
  desktop_path :: path
  contents_folder :: path
  comments_folder :: path

text \<open>
  \<^verbatim>\<open>FileManager.__init__\<close>; \<open>home\<close> is \<^verbatim>\<open>os.path.expanduser("~")\<close>. The change of
  the working directory has no effect on the absolute paths used below.
\<close>

definition FileManager :: "path \<Rightarrow> path option \<Rightarrow> file_manager" where
  "FileManager home desktop =
     (let dp = (case desktop of None \<Rightarrow> home @ [''Desktop''] | Some p \<Rightarrow> p)
      in \<lparr>desktop_path = dp,
          contents_folder = dp @ [''contents''],
          comments_folder = dp @ [''comments'']\<rparr>)"

text \<open>
  The zip container is written by the \<^verbatim>\<open>zipfile\<close> library: \<open>enc\<close> stands for the bytes
  of an archive with the given compression method and the given entries (archive name
  and data), in the order they were written.
\<close>

datatype compression = ZIP_STORED | ZIP_DEFLATED

type_synonym zip_entry = "path \<times> byte list"
type_synonym zip_encoder = "compression \<Rightarrow> zip_entry list \<Rightarrow> byte list"

text \<open>The two nested loops of \<^verbatim>\<open>compress_folder\<close> over \<^verbatim>\<open>os.walk(folder_path)\<close>.\<close>

definition zip_entries :: "path \<Rightarrow> node \<Rightarrow> zip_entry list" where
  "zip_entries folder_path n =
     concat (map (\<lambda>(dir, dirs, files).
                    map (\<lambda>(file, d). (relpath (dir @ [file]) (dirname folder_path), d)) files)
                 (os_walk folder_path n))"

text \<open>
  The body of the \<^verbatim>\<open>try\<close> block of \<^verbatim>\<open>compress_folder\<close>: \<open>Inl\<close> is a raised exception
  together with the lines printed and the file system left behind. Results are the
  returned triple, the printed lines and the new file system. \<^verbatim>\<open>ZipFile(zip_path, 'w')\<close>
  creates or truncates the archive file before the walk and fails where \<open>write_file\<close>
  fails; the archive path never lies inside the walked folder (\<open>folder_not_above_zip\<close>
  below), so the walk reads the folder as it was and the finished archive is written in
  one step.
\<close>

type_synonym compress_result = "(bool \<times> message \<times> path option) \<times> message list \<times> node"

definition compress_try :: "zip_encoder \<Rightarrow> real \<Rightarrow> node \<Rightarrow> path \<Rightarrow> string \<Rightarrow> path
    \<Rightarrow> (exn \<times> message list \<times> node) + compress_result" where
  "compress_try enc now fs folder_path zip_name zip_path =
     (case lookup fs folder_path of
        None \<Rightarrow> Inr ((False, MsgFolderMissing folder_path, None), [], fs)
      | Some n \<Rightarrow>
          (let out = [MsgCompressStart folder_path zip_path];
               entries = zip_entries folder_path n
           in case write_file fs zip_path zip_path now (enc ZIP_DEFLATED entries) of
                Inl e \<Rightarrow> Inl (e, out, fs)
              | Inr fs' \<Rightarrow>
                  (case getsize fs' zip_path of
                     Inl e \<Rightarrow> Inl (e, out, fs')
                   | Inr file_size \<Rightarrow>
                       (let message = MsgCompressed zip_name (length entries) file_size
                        in Inr ((True, message, Some zip_path), out @ [message], fs')))))"

definition compress_at :: "zip_encoder \<Rightarrow> real \<Rightarrow> node \<Rightarrow> path \<Rightarrow> string \<Rightarrow> compress_result" where
  "compress_at enc now fs folder_path zip_name =
     (let zip_path = zips_path @ [zip_name]
      in case compress_try enc now fs folder_path zip_name zip_path of
           Inr r \<Rightarrow> r
         | Inl (e, out, fs') \<Rightarrow>
             (let error_msg = MsgCompressFailed e
              in ((False, error_msg, None), out @ [error_msg], fs')))"

definition compress_folder :: "zip_encoder \<Rightarrow> file_manager \<Rightarrow> real \<Rightarrow> node \<Rightarrow> string \<Rightarrow> compress_result" where
  "compress_folder enc self now fs folder_name =
     (if folder_name = ''contents'' then compress_at enc now fs (contents_folder self) ''contents.zip''
      else if folder_name = ''comments'' then compress_at enc now fs (comments_folder self) ''comments.zip''
      else ((False, MsgUnsupportedFolder folder_name, None), [], fs))"

text \<open>
  One entry of \<^verbatim>\<open>get_available_files\<close>. The values of \<^verbatim>\<open>size_mb\<close>,
  \<^verbatim>\<open>formatted_size\<close> and \<^verbatim>\<open>created_time\<close> are texts rendered from the size and the
  creation time (rounding, \<^verbatim>\<open>_format_file_size\<close>, \<^verbatim>\<open>strftime\<close>); they are kept as the
  value they render.
\<close>

datatype rendered = SizeMb nat | FormattedSize nat | CreatedTime real

record file_info =
  fi_name :: string
  fi_path :: path
  fi_size :: nat
  fi_size_mb :: rendered
  fi_formatted_size :: rendered
  fi_created_time :: rendered

text \<open>
  The loop of \<^verbatim>\<open>get_available_files\<close>: \<^verbatim>\<open>os.path.exists\<close>, \<^verbatim>\<open>getsize\<close> and
  \<^verbatim>\<open>getctime\<close> read the same node of the file system.
\<close>

definition zip_files :: "string list" where
  "zip_files = [''contents.zip'', ''comments.zip'']"

fun available_loop :: "node \<Rightarrow> string list \<Rightarrow> file_info list \<Rightarrow> file_info list" where
  "available_loop fs [] files = files"
| "available_loop fs (zip_file # rest) files =
     (let zip_path = zips_path @ [zip_file]
      in case lookup fs zip_path of
           None \<Rightarrow> available_loop fs rest files
         | Some n \<Rightarrow>
             (let file_size = node_size n
              in available_loop fs rest
                   (files @ [\<lparr>fi_name = zip_file, fi_path = zip_path, fi_size = file_size,
                              fi_size_mb = SizeMb file_size,
                              fi_formatted_size = FormattedSize file_size,
                              fi_created_time = CreatedTime (node_ctime n)\<rparr>])))"

definition get_available_files :: "node \<Rightarrow> file_info list" where
  "get_available_files fs = available_loop fs zip_files []"

text \<open>
  \<^verbatim>\<open>cleanup_old_files\<close>: the loop runs inside \<^verbatim>\<open>try\<close>; the state is the count, the
  printed lines and the file system. An exception leaves the loop with the lines and
  the file system of that moment.
\<close>

fun cleanup_loop :: "real \<Rightarrow> file_info list \<Rightarrow> nat \<times> message list \<times> node
    \<Rightarrow> (exn \<times> message list \<times> node) + (nat \<times> message list \<times> node)" where
  "cleanup_loop cutoff_time [] st = Inr st"
| "cleanup_loop cutoff_time (file_info # rest) (deleted_count, out, fs) =
     (let file_path = fi_path file_info
      in case getctime fs file_path of
           Inl e \<Rightarrow> Inl (e, out, fs)
         | Inr ct \<Rightarrow>
             if ct < cutoff_time then
               (case os_remove fs file_path file_path of
                  Inl e \<Rightarrow> Inl (e, out, fs)
                | Inr fs' \<Rightarrow>
                    cleanup_loop cutoff_time rest
                      (deleted_count + 1, out @ [MsgDeletedOld (fi_name file_info)], fs'))
             else cleanup_loop cutoff_time rest (deleted_count, out, fs))"

text \<open>
  \<^verbatim>\<open>datetime.now().timestamp() - (days * 24 * 60 * 60)\<close>: the product is an integer of
  any size and is converted to a float for the subtraction. The conversion raises
  \<open>OverflowError\<close> when the integer rounds to a magnitude of \<open>2 ^ 1024\<close> or more, that is
  from \<open>2 ^ 1024 - 2 ^ 970\<close> on; below that the subtraction is taken exactly, time
  stamps being real numbers here. The exception is raised inside the \<^verbatim>\<open>try\<close> block,
  before any archive is looked at.
\<close>

definition FLOAT_LIMIT :: int where
  "FLOAT_LIMIT = 2 ^ 1024 - 2 ^ 970"

definition cutoff :: "real \<Rightarrow> int \<Rightarrow> exn + real" where
  "cutoff now days =
     (let seconds = days * 24 * 60 * 60
      in if \<bar>seconds\<bar> < FLOAT_LIMIT then Inr (now - real_of_int seconds) else Inl OverflowError)"

text \<open>The body of the \<^verbatim>\<open>try\<close> block of \<^verbatim>\<open>cleanup_old_files\<close>, and the function.\<close>

definition cleanup_try :: "real \<Rightarrow> int \<Rightarrow> node
    \<Rightarrow> (exn \<times> message list \<times> node) + (nat \<times> message list \<times> node)" where
  "cleanup_try now days fs =
     (case cutoff now days of
        Inl e \<Rightarrow> Inl (e, [], fs)
      | Inr cutoff_time \<Rightarrow> cleanup_loop cutoff_time (get_available_files fs) (0, [], fs))"

definition cleanup_old_files :: "real \<Rightarrow> int \<Rightarrow> node \<Rightarrow> (int \<times> message) \<times> message list \<times> node" where
  "cleanup_old_files now days fs =
     (case cleanup_try now days fs of
        Inr (deleted_count, out, fs') \<Rightarrow> ((int deleted_count, MsgCleaned deleted_count), out, fs')
      | Inl (e, out, fs') \<Rightarrow> ((0, MsgCleanupError e), out, fs'))"

text \<open>The module-level instance and the convenience functions.\<close>

definition file_manager :: "path \<Rightarrow> file_manager" where
  "file_manager home = FileManager home None"

definition compress_contents :: "zip_encoder \<Rightarrow> path \<Rightarrow> real \<Rightarrow> node \<Rightarrow> compress_result" where
  "compress_contents enc home now fs = compress_folder enc (file_manager home) now fs ''contents''"

definition compress_comments :: "zip_encoder \<Rightarrow> path \<Rightarrow> real \<Rightarrow> node \<Rightarrow> compress_result" where
  "compress_comments enc home now fs = compress_folder enc (file_manager home) now fs ''comments''"

definition get_downloadable_files :: "node \<Rightarrow> file_info list" where
  "get_downloadable_files fs = get_available_files fs"

definition cleanup_files :: "real \<Rightarrow> int \<Rightarrow> node \<Rightarrow> (int \<times> message) \<times> message list \<times> node" where
  "cleanup_files now days fs = cleanup_old_files now days fs"


section \<open>Module \<^verbatim>\<open>server_down\<close>: the control server and the job runner\<close>

text \<open>
  \<^verbatim>\<open>datetime.now()\<close> gives a calendar date and time of day; \<^verbatim>\<open>isoformat()\<close> prints
  it as \<^verbatim>\<open>YYYY-MM-DDTHH:MM:SS\<close>, followed by \<^verbatim>\<open>.ffffff\<close> when the microseconds
  are not zero. The clock gives the same instant as a time stamp in seconds.
\<close>

record datetime =
  dt_year :: nat
  dt_month :: nat
  dt_day :: nat
  dt_hour :: nat
  dt_minute :: nat
  dt_second :: nat
  dt_microsecond :: nat

definition isoformat :: "datetime \<Rightarrow> string" where
  "isoformat t =
     zpad 4 (dt_year t) @ ''-'' @ zpad 2 (dt_month t) @ ''-'' @ zpad 2 (dt_day t) @ ''T'' @
     zpad 2 (dt_hour t) @ '':'' @ zpad 2 (dt_minute t) @ '':'' @ zpad 2 (dt_second t) @
     (if dt_microsecond t = 0 then [] else ''.'' @ zpad 6 (dt_microsecond t))"

record clock =
  clk_datetime :: datetime
  clk_timestamp :: real








text \<open>The value handed to \<^verbatim>\<open>json.dumps\<close>.\<close>

datatype json =
    JStr string
  | JInt int
  | JPath path
  | JText message
  | JRendered rendered
  | JArr "json list"
  | JObj "(string \<times> json) list"

definition file_json :: "file_info \<Rightarrow> json" where
  "file_json f =
     JObj [(''name'', JStr (fi_name f)), (''path'', JPath (fi_path f)),
           (''size'', JInt (int (fi_size f))), (''size_mb'', JRendered (fi_size_mb f)),
           (''formatted_size'', JRendered (fi_formatted_size f)),
           (''created_time'', JRendered (fi_created_time f))]"

text \<open>
  What a request handler does, in order: the calls on the response API of
  \<^verbatim>\<open>http.server\<close>, the writes to \<^verbatim>\<open>wfile\<close>, the lines printed, and the start of a
  background thread running \<^verbatim>\<open>run_in_thread\<close> for a script. What is written is the
  control page (kept as the archive listing it is rendered from), a JSON document, a text
  or a block of bytes.
\<close>

datatype payload =
    ControlPage "file_info list"
  | JsonBody json
  | TextBody message
  | Bytes "byte list"

datatype event =
    SendResponse nat
  | SendHeader string string
  | EndHeaders
  | WFileWrite payload
  | SendError nat "message option"
  | Print message
  | ThreadStart string path
  | Raise exn

text \<open>
  \<^verbatim>\<open>send_error(code, message)\<close> of \<^verbatim>\<open>http.server\<close> sends the error response, with the
  message in the status line. The status line is encoded as Latin-1: with one of the
  Chinese texts as message the encoding raises \<open>UnicodeEncodeError\<close> after the error was
  logged and before anything is sent. \<open>SendError\<close> is the error response sent; \<open>Raise\<close> is
  an exception that leaves the handler, and ends it.
\<close>

fun latin_1 :: "message \<Rightarrow> bool" where
  "latin_1 (MsgText s) = True"
| "latin_1 _ = False"

definition send_error :: "nat \<Rightarrow> message option \<Rightarrow> event list" where
  "send_error code message =
     (case message of
        None \<Rightarrow> [SendError code None]
      | Some m \<Rightarrow> if latin_1 m then [SendError code (Some m)] else [Raise UnicodeEncodeError])"

definition PORT :: nat where
  "PORT = 8000"

definition SCRIPT_PATHS :: "(string \<times> path) list" where
  "SCRIPT_PATHS =
     [(''contents'', [''D:'', ''AutoViewScript'', ''contents.py'']),
      (''comments'', [''D:'', ''AutoViewScript'', ''comments.py''])]"

text \<open>\<^verbatim>\<open>str.split(sep)\<close> for a one-character separator.\<close>

fun split :: "char \<Rightarrow> string \<Rightarrow> string list" where
  "split sep [] = [[]]"
| "split sep (c # cs) =
     (if c = sep then [] # split sep cs
      else (case split sep cs of [] \<Rightarrow> [[c]] | w # ws \<Rightarrow> (c # w) # ws))"

text \<open>
  \<^verbatim>\<open>shutil.copyfileobj\<close> reads blocks of at most \<open>COPY_BUFSIZE\<close> bytes and writes each
  block as it is read, until a read returns nothing.
\<close>

definition COPY_BUFSIZE :: nat where
  "COPY_BUFSIZE = 1024 * 1024"

function copyfileobj :: "nat \<Rightarrow> byte list \<Rightarrow> byte list list" where
  "copyfileobj n d = (if n = 0 \<or> d = [] then [] else take n d # copyfileobj n (drop n d))"
  by pat_completeness auto
termination
  by (relation "measure (\<lambda>(n, d). length d)") auto

declare copyfileobj.simps [simp del]

text \<open>
  The header value \<^verbatim>\<open>attachment; filename="..."\<close>. The name put there is the UTF-8
  encoding of the requested name read as Latin-1, which on a string of bytes is the same
  string. When the archive cannot be opened, the headers of the 200 response are already
  sent; the \<^verbatim>\<open>except\<close> clause then calls \<^verbatim>\<open>send_error\<close> with a Chinese text, so
  that no 500 response is sent and \<open>UnicodeEncodeError\<close> leaves the handler.
\<close>

definition content_disposition :: "string \<Rightarrow> string" where
  "content_disposition encoded_filename =
     ''attachment; filename='' @ [CHR 0x22] @ encoded_filename @ [CHR 0x22]"

definition download_file :: "node \<Rightarrow> string \<Rightarrow> event list" where
  "download_file fs file_name =
     (let available_files = get_downloadable_files fs
      in case find (\<lambda>f. fi_name f = file_name) available_files of
           None \<Rightarrow> send_error 404 (Some (MsgText ''File not found''))
         | Some file_info \<Rightarrow>
             (let file_path = fi_path file_info;
                  file_size = fi_size file_info;
                  encoded_filename = file_name
              in [SendResponse 200,
                  SendHeader ''Content-type'' ''application/zip'',
                  SendHeader ''Content-Disposition'' (content_disposition encoded_filename),
                  SendHeader ''Content-Length'' (str_nat file_size),
                  EndHeaders] @
                 (case read_file fs file_path of
                    Inr d \<Rightarrow> map (\<lambda>b. WFileWrite (Bytes b)) (copyfileobj COPY_BUFSIZE d) @
                             [Print (MsgDownloaded file_name)]
                  | Inl e \<Rightarrow> send_error 500 (Some (MsgDownloadFailed e)))))"

definition cleanup_files_handler :: "clock \<Rightarrow> node \<Rightarrow> event list \<times> node" where
  "cleanup_files_handler clk fs =
     (case cleanup_files (clk_timestamp clk) 7 fs of
        ((deleted_count, message), out, fs') \<Rightarrow>
          (map Print out @
           [SendResponse 200,
            SendHeader ''Content-type'' ''application/json'',
            EndHeaders,
            WFileWrite (JsonBody (JObj [(''deleted_count'', JInt deleted_count),
                                        (''message'', JText message)]))],
           fs'))"

definition get_control_page :: "node \<Rightarrow> payload" where
  "get_control_page fs = ControlPage (get_downloadable_files fs)"

definition run_script :: "string \<Rightarrow> event list" where
  "run_script script_name =
     (case map_of SCRIPT_PATHS script_name of
        Some script_path \<Rightarrow>
          [ThreadStart script_name script_path,
           SendResponse 200,
           SendHeader ''Content-type'' ''text/plain; charset=utf-8'',
           EndHeaders,
           WFileWrite (TextBody (MsgStarted script_name))]
      | None \<Rightarrow> send_error 404 (Some (MsgText ''Script not found'')))"

definition do_GET :: "clock \<Rightarrow> node \<Rightarrow> string \<Rightarrow> event list \<times> node" where
  "do_GET clk fs path =
     (if path = ''/'' then
        ([SendResponse 200,
          SendHeader ''Content-type'' ''text/html; charset=utf-8'',
          EndHeaders,
          WFileWrite (get_control_page fs)], fs)
      else if prefix ''/run/'' path then
        (let script_name = last (split CHR ''/'' path) in (run_script script_name, fs))
      else if prefix ''/download/'' path then
        (let file_name = last (split CHR ''/'' path) in (download_file fs file_name, fs))
      else if path = ''/status'' then
        ([SendResponse 200,
          SendHeader ''Content-type'' ''application/json'',
          EndHeaders,
          WFileWrite (JsonBody (JObj [(''status'', JStr ''running''),
                                      (''timestamp'', JStr (isoformat (clk_datetime clk))),
                                      (''files'', JArr (map file_json (get_downloadable_files fs)))]))],
         fs)
      else if path = ''/cleanup'' then cleanup_files_handler clk fs
      else (send_error 404 None, fs))"

text \<open>
  \<^verbatim>\<open>subprocess.run(argv, capture_output=True, text=True, cwd=..., timeout=...)\<close>: the job
  is an external program. It either completes with an exit code and its captured
  output, or the call raises (\<open>TimeoutExpired\<close> after the child was killed, or an error
  of the launch); in both cases it may have changed the file system.
\<close>

record completed_process =
  returncode :: int
  stdout :: string
  stderr :: string

type_synonym subprocess_run =
  "path list \<Rightarrow> path option \<Rightarrow> nat \<Rightarrow> node \<Rightarrow> (exn + completed_process) \<times> node"

definition venv_path :: path where
  "venv_path = [''D:'', ''pyCharmProject'', ''AutoViewScript'', ''.venv'', ''Scripts'']"

text \<open>
  The body of the \<^verbatim>\<open>try\<close> block of \<^verbatim>\<open>run_in_thread\<close>; \<open>now\<close> is the time at which
  the archive is written.
\<close>

definition run_in_thread_try :: "zip_encoder \<Rightarrow> subprocess_run \<Rightarrow> path \<Rightarrow> real \<Rightarrow> string \<Rightarrow> path
    \<Rightarrow> node \<Rightarrow> (exn \<times> message list \<times> node) + (message list \<times> node)" where
  "run_in_thread_try enc subprocess_run home now script_name script_path fs =
     (let python_exe = venv_path @ [''python.exe'']
      in if path_exists fs python_exe then
           (let out = [MsgScriptStart script_name]
            in case subprocess_run [python_exe, script_path] (Some (dirname script_path)) 300 fs of
                 (Inl e, fs1) \<Rightarrow> Inl (e, out, fs1)
               | (Inr result, fs1) \<Rightarrow>
                   (let out1 = out @ [MsgScriptDone script_name, MsgOutput (stdout result)]
                    in case (if script_name = ''contents'' then compress_contents enc home now fs1
                             else compress_comments enc home now fs1) of
                         ((success, message, zip_path), printed, fs2) \<Rightarrow>
                           (let out2 = out1 @ printed @ [MsgCompressResult message]
                            in Inr (if stderr result \<noteq> [] then out2 @ [MsgStderr (stderr result)]
                                    else out2, fs2))))
         else
           (case subprocess_run [[''python''], script_path] None 300 fs of
              (Inl e, fs1) \<Rightarrow> Inl (e, [], fs1)
            | (Inr result, fs1) \<Rightarrow> Inr ([MsgScriptDone script_name], fs1)))"

definition run_in_thread :: "zip_encoder \<Rightarrow> subprocess_run \<Rightarrow> path \<Rightarrow> real \<Rightarrow> string \<Rightarrow> path
    \<Rightarrow> node \<Rightarrow> message list \<times> node" where
  "run_in_thread enc subprocess_run home now script_name script_path fs =
     (case run_in_thread_try enc subprocess_run home now script_name script_path fs of
        Inr r \<Rightarrow> r
      | Inl (e, out, fs') \<Rightarrow>
          (case e of
             TimeoutExpired \<Rightarrow> (out @ [MsgTimeout script_name], fs')
           | _ \<Rightarrow> (out @ [MsgScriptError e], fs')))"


section \<open>Observations on responses, and example states\<close>



text \<open>
  A file system with the archive directory, the script directory of the virtual
  environment and the desktop of a user whose home is \<^verbatim>\<open>C:\Users\me\<close>, each with the
  given entries; and a clock.
\<close>

definition mk_fs :: "(string \<times> node) list \<Rightarrow> (string \<times> node) list \<Rightarrow> (string \<times> node) list \<Rightarrow> node" where
  "mk_fs zips desktop scripts =
     Dir 0 0
       [(''D:'', Dir 0 0
          [(''pyCharmProject'', Dir 0 0
             [(''AutoViewScript'', Dir 0 0
                [(''zip'', Dir 0 0 zips),
                 (''.venv'', Dir 0 0 [(''Scripts'', Dir 0 0 scripts)])])])]),
        (''C:'', Dir 0 0
          [(''Users'', Dir 0 0
             [(''me'', Dir 0 0 [(''Desktop'', Dir 0 0 desktop)])])])]"

definition home0 :: path where
  "home0 = [''C:'', ''Users'', ''me'']"

definition clk0 :: clock where
  "clk0 = \<lparr>clk_datetime = \<lparr>dt_year = 2024, dt_month = 2, dt_day = 29, dt_hour = 9, dt_minute = 5,
                             dt_second = 7, dt_microsecond = 1500\<rparr>,
           clk_timestamp = 1000000\<rparr>"


definition archive_info :: "string \<Rightarrow> node \<Rightarrow> file_info" where
  "archive_info z n =
     \<lparr>fi_name = z, fi_path = zips_path @ [z], fi_size = node_size n, fi_size_mb = SizeMb (node_size n),
      fi_formatted_size = FormattedSize (node_size n), fi_created_time = CreatedTime (node_ctime n)\<rparr>"


definition fs_old_dir :: node where
  "fs_old_dir = mk_fs [(''contents.zip'', File 136000 [1, 2, 3]), (''comments.zip'', Dir 136000 0 [])] [] []"










text \<open>
  The files met by a walk, each with its full path. \<open>folder_of\<close> and \<open>zip_of\<close> are the
  output folder and the archive path that \<^verbatim>\<open>compress_folder\<close> selects for a folder name.
\<close>

definition walked_files :: "(path \<times> string list \<times> (string \<times> byte list) list) list \<Rightarrow> (path \<times> byte list) list" where
  "walked_files ts = concat (map (\<lambda>(dir, dirs, files). map (\<lambda>(file, d). (dir @ [file], d)) files) ts)"

definition folder_of :: "file_manager \<Rightarrow> string \<Rightarrow> path" where
  "folder_of self folder_name =
     (if folder_name = ''contents'' then contents_folder self else comments_folder self)"

definition zip_of :: "string \<Rightarrow> path" where
  "zip_of folder_name = zips_path @ [folder_name @ ''.zip'']"

text \<open>
  An encoder for the examples (it keeps the data of the entries, in order), a file system
  with the output of the \<^verbatim>\<open>contents\<close> job next to an archive of an earlier run, the
  same file system after archiving, and one with the output of the \<^verbatim>\<open>comments\<close> job
  and no archive yet.
\<close>

definition enc0 :: zip_encoder where
  "enc0 method entries = concat (map snd entries)"

definition fs_job :: node where
  "fs_job =
     mk_fs [(''contents.zip'', File 136000 [1, 2, 3])]
       [(''contents'', Dir 0 0 [(''report.html'', File 5 [10, 11]),
                               (''charts'', Dir 0 0 [(''a.png'', File 6 [12])])])]
       [(''python.exe'', File 0 [])]"

definition fs_job_archived :: node where
  "fs_job_archived =
     mk_fs [(''contents.zip'', File 136000 [10, 11, 12])]
       [(''contents'', Dir 0 0 [(''report.html'', File 5 [10, 11]),
                               (''charts'', Dir 0 0 [(''a.png'', File 6 [12])])])]
       [(''python.exe'', File 0 [])]"

definition fs_comments :: node where
  "fs_comments =
     mk_fs []
       [(''comments'', Dir 0 0 [(''words.csv'', File 7 [20]),
                               (''img'', Dir 0 0 [(''cloud.png'', File 8 [21, 22])])])]
       []"

text \<open>
  The interpreter of the virtual environment, as \<^verbatim>\<open>run_in_thread\<close> names it. Example
  jobs: one that exits with a given code and leaves the file system alone, and one whose
  call raises. \<open>compress_results\<close> collects the compression results a thread has logged.
  \<open>fs_no_store\<close> has the interpreter and an output folder, and no archive directory.
\<close>

definition python_exe :: path where
  "python_exe = venv_path @ [''python.exe'']"

definition sp_exit :: "int \<Rightarrow> subprocess_run" where
  "sp_exit code argv cwd timeout fs = (Inr \<lparr>returncode = code, stdout = ''done'', stderr = []\<rparr>, fs)"

definition sp_raise :: "exn \<Rightarrow> subprocess_run" where
  "sp_raise e argv cwd timeout fs = (Inl e, fs)"

fun compress_results :: "message list \<Rightarrow> message list" where
  "compress_results [] = []"
| "compress_results (MsgCompressResult m # ms) = m # compress_results ms"
| "compress_results (_ # ms) = compress_results ms"

definition fs_no_store :: node where
  "fs_no_store =
     Dir 0 0
       [(''D:'', Dir 0 0
          [(''pyCharmProject'', Dir 0 0
             [(''AutoViewScript'', Dir 0 0
                [(''.venv'', Dir 0 0 [(''Scripts'', Dir 0 0 [(''python.exe'', File 0 [])])])])])]),
        (''C:'', Dir 0 0
          [(''Users'', Dir 0 0
             [(''me'', Dir 0 0
                [(''Desktop'', Dir 0 0 [(''contents'', Dir 0 0 [(''report.html'', File 5 [10, 11])])])])])])]"

section \<open>Facts about the file system\<close>

lemma write_lookup_same:
  "write_file n ks full now d = Inr n' \<Longrightarrow> \<exists>c. lookup n' ks = Some (File c d)"
  "write_in es k ks full now d = Inr es' \<Longrightarrow> \<exists>c. lookup_in es' k ks = Some (File c d)"
  by (induction n ks full now d and es k ks full now d arbitrary: n' and es'
        rule: write_file_write_in.induct)
     (auto split: sum.splits if_splits list.splits node.splits)

lemma write_lookup_other:
  "write_file n ks full now d = Inr n' \<Longrightarrow> \<not> prefix ks qs \<Longrightarrow> \<not> prefix qs ks
     \<Longrightarrow> lookup n' qs = lookup n qs"
  "write_in es k ks full now d = Inr es' \<Longrightarrow> \<not> (k = q \<and> prefix ks qs) \<Longrightarrow> \<not> (k = q \<and> prefix qs ks)
     \<Longrightarrow> lookup_in es' q qs = lookup_in es q qs"
proof (induction n ks full now d and es k ks full now d arbitrary: n' qs and es' q qs
    rule: write_file_write_in.induct)
  case (1 n full now d)
  then show ?case by simp
next
  case (2 c d' k ks full now d)
  then show ?case by simp
next
  case (3 c s es k ks full now d)
  from "3.prems"(1) obtain es' where w: "write_in es k ks full now d = Inr es'"
    and n': "n' = Dir c s es'"
    by (auto split: sum.splits)
  from "3.prems"(2,3) obtain q qs' where qs: "qs = q # qs'" by (cases qs) auto
  with "3.prems"(2,3) have "\<not> (k = q \<and> prefix ks qs')" "\<not> (k = q \<and> prefix qs' ks)" by auto
  from "3.IH"[OF w this] show ?case by (simp add: n' qs)
next
  case (4 k ks full now d)
  then show ?case by (auto split: if_splits)
next
  case (5 k' n es k ks full now d)
  show ?case
  proof (cases "k' = k")
    case False
    with "5.prems"(1) obtain es2 where w: "write_in es k ks full now d = Inr es2"
      and e: "es' = (k', n) # es2"
      by (auto split: sum.splits)
    from "5.IH"(2)[OF False w "5.prems"(2,3)] show ?thesis by (simp add: e)
  next
    case True
    show ?thesis
    proof (cases ks)
      case Nil
      with True "5.prems"(1) obtain c d' where "n = File c d'" "es' = (k', File c d) # es"
        by (auto split: node.splits)
      with True Nil "5.prems"(2) show ?thesis by auto
    next
      case (Cons a as)
      with True "5.prems"(1) obtain n2 where w: "write_file n ks full now d = Inr n2"
        and e: "es' = (k', n2) # es"
        by (auto split: sum.splits)
      show ?thesis
      proof (cases "q = k")
        case False
        with True show ?thesis by (simp add: e)
      next
        case qk: True
        with "5.prems"(2,3) have "\<not> prefix ks qs" "\<not> prefix qs ks" by auto
        from "5.IH"(1)[OF True Cons w this] show ?thesis using True qk by (simp add: e)
      qed
    qed
  qed
qed

lemma write_ok:
  "ks \<noteq> [] \<Longrightarrow> \<exists>c s es0. lookup n (butlast ks) = Some (Dir c s es0) \<Longrightarrow>
     \<forall>c s es0. lookup n ks \<noteq> Some (Dir c s es0) \<Longrightarrow> \<exists>n'. write_file n ks full now d = Inr n'"
  "ks \<noteq> [] \<longrightarrow> (\<exists>c s es0. lookup_in es k (butlast ks) = Some (Dir c s es0)) \<Longrightarrow>
     \<forall>c s es0. lookup_in es k ks \<noteq> Some (Dir c s es0) \<Longrightarrow> \<exists>es'. write_in es k ks full now d = Inr es'"
  by (induction n ks full now d and es k ks full now d rule: write_file_write_in.induct)
     (auto split: sum.splits if_splits list.splits node.splits)

lemma lookup_in_filter_same: "lookup_in (filter (\<lambda>e. fst e \<noteq> k) es) k ks = None"
  by (induction es) auto

lemma lookup_in_filter_other:
  "q \<noteq> k \<Longrightarrow> lookup_in (filter (\<lambda>e. fst e \<noteq> k) es) q qs = lookup_in es q qs"
  by (induction es) auto

lemma remove_lookup_same:
  "os_remove n ks full = Inr n' \<Longrightarrow> lookup n' ks = None"
  "remove_in es k ks full = Inr es' \<Longrightarrow> lookup_in es' k ks = None"
  by (induction n ks full and es k ks full arbitrary: n' and es' rule: os_remove_remove_in.induct)
     (auto simp: lookup_in_filter_same split: sum.splits if_splits list.splits node.splits)


lemma remove_dir_fails:
  "lookup n ks = Some (Dir c s es0) \<Longrightarrow> ks \<noteq> [] \<Longrightarrow> os_remove n ks full = Inl (PermissionError full)"
  "lookup_in es k ks = Some (Dir c s es0) \<Longrightarrow> remove_in es k ks full = Inl (PermissionError full)"
  by (induction n ks full and es k ks full rule: os_remove_remove_in.induct)
     (auto split: sum.splits if_splits list.splits node.splits)

lemma remove_lookup_other:
  "os_remove n ks full = Inr n' \<Longrightarrow> \<not> prefix ks qs \<Longrightarrow> \<not> prefix qs ks
     \<Longrightarrow> lookup n' qs = lookup n qs"
  "remove_in es k ks full = Inr es' \<Longrightarrow> \<not> (k = q \<and> prefix ks qs) \<Longrightarrow> \<not> (k = q \<and> prefix qs ks)
     \<Longrightarrow> lookup_in es' q qs = lookup_in es q qs"
proof (induction n ks full and es k ks full arbitrary: n' qs and es' q qs
    rule: os_remove_remove_in.induct)
  case (1 n full)
  then show ?case by simp
next
  case (2 c d k ks full)
  then show ?case by simp
next
  case (3 c s es k ks full)
  from "3.prems"(1) obtain es' where w: "remove_in es k ks full = Inr es'"
    and n': "n' = Dir c s es'"
    by (auto split: sum.splits)
  from "3.prems"(2,3) obtain q qs' where qs: "qs = q # qs'" by (cases qs) auto
  with "3.prems"(2,3) have "\<not> (k = q \<and> prefix ks qs')" "\<not> (k = q \<and> prefix qs' ks)" by auto
  from "3.IH"[OF w this] show ?case by (simp add: n' qs)
next
  case (4 k ks full)
  then show ?case by simp
next
  case (5 k' n es k ks full)
  show ?case
  proof (cases "k' = k")
    case False
    with "5.prems"(1) obtain es2 where w: "remove_in es k ks full = Inr es2"
      and e: "es' = (k', n) # es2"
      by (auto split: sum.splits)
    from "5.IH"(2)[OF False w "5.prems"(2,3)] show ?thesis by (simp add: e)
  next
    case True
    show ?thesis
    proof (cases ks)
      case Nil
      with True "5.prems"(1) obtain c d' where "n = File c d'"
        "es' = filter (\<lambda>e. fst e \<noteq> k) es"
        by (auto split: node.splits)
      with True Nil "5.prems"(2) show ?thesis by (auto simp: lookup_in_filter_other)
    next
      case (Cons a as)
      with True "5.prems"(1) obtain n2 where w: "os_remove n ks full = Inr n2"
        and e: "es' = (k', n2) # es"
        by (auto split: sum.splits)
      show ?thesis
      proof (cases "q = k")
        case False
        with True show ?thesis by (simp add: e)
      next
        case qk: True
        with "5.prems"(2,3) have "\<not> prefix ks qs" "\<not> prefix qs ks" by auto
        from "5.IH"(1)[OF True Cons w this] show ?thesis using True qk by (simp add: e)
      qed
    qed
  qed
qed

lemma lookup_zip_mk_fs:
  "lookup (mk_fs zips desktop scripts) (zips_path @ [z]) = lookup_in zips z []"
  by (simp add: mk_fs_def zips_path_def)

section \<open>Facts about request paths\<close>

lemma split_no_sep: "sep \<notin> set s \<Longrightarrow> split sep s = [s]"
  by (induction s) (auto split: list.splits)

lemma split_append_sep:
  "sep \<notin> set name \<Longrightarrow> \<exists>ws. ws \<noteq> [] \<and> split sep (pre @ sep # name) = ws @ [name]"
proof (induction pre)
  case Nil
  then have "split sep ([] @ sep # name) = [[]] @ [name]" by (simp add: split_no_sep)
  then show ?case by blast
next
  case (Cons c pre)
  then obtain ws where ws: "ws \<noteq> []" "split sep (pre @ sep # name) = ws @ [name]" by blast
  then obtain w ws1 where w: "ws = w # ws1" by (cases ws) auto
  show ?case
  proof (cases "c = sep")
    case True
    then have "split sep ((c # pre) @ sep # name) = ([] # ws) @ [name]" using ws by simp
    then show ?thesis by blast
  next
    case False
    then have "split sep ((c # pre) @ sep # name) = ((c # w) # ws1) @ [name]" using ws w by simp
    then show ?thesis by blast
  qed
qed

lemma last_split_append:
  "sep \<notin> set name \<Longrightarrow> last (split sep (pre @ sep # name)) = name"
  using split_append_sep[of sep name pre] by auto

section \<open>C5: the response to \<^verbatim>\<open>GET /run/{jobName}\<close>\<close>

text \<open>
  C5: for every request \<^verbatim>\<open>GET /run/{jobName}\<close>, where the job name is one path segment:
  if the name is not a key of \<open>SCRIPT_PATHS\<close> the handler answers 404; if it is, the handler
  starts the background thread for that script and then answers 200 with the
  acknowledgment text. The handler only starts the thread: what it sends and the file
  system it leaves do not depend on the job, which runs in \<open>run_in_thread\<close>.
\<close>

theorem do_GET_run:
  assumes "CHR ''/'' \<notin> set job_name"
  shows "do_GET clk fs (''/run/'' @ job_name) =
     (case map_of SCRIPT_PATHS job_name of
        None \<Rightarrow> ([SendError 404 (Some (MsgText ''Script not found''))], fs)
      | Some script_path \<Rightarrow>
          ([ThreadStart job_name script_path,
            SendResponse 200,
            SendHeader ''Content-type'' ''text/plain; charset=utf-8'',
            EndHeaders,
            WFileWrite (TextBody (MsgStarted job_name))], fs))"
proof -
  have "last (split CHR ''/'' (''/run'' @ CHR ''/'' # job_name)) = job_name"
    using assms by (rule last_split_append)
  then have l: "last (split CHR ''/'' (''/run/'' @ job_name)) = job_name" by simp
  have p: "prefix ''/run/'' (''/run/'' @ job_name)" by simp
  have n: "''/run/'' @ job_name \<noteq> ''/''" by simp
  show ?thesis
    unfolding do_GET_def run_script_def Let_def using l p n
    by (simp only: if_True if_False) (simp add: send_error_def split: option.splits)
qed

theorem do_GET_run_witness:
  "CHR ''/'' \<notin> set ''contents'' \<and> CHR ''/'' \<notin> set ''backup'' \<and>
   do_GET clk0 (mk_fs [] [] []) ''/run/contents'' =
     ([ThreadStart ''contents'' [''D:'', ''AutoViewScript'', ''contents.py''],
       SendResponse 200,
       SendHeader ''Content-type'' ''text/plain; charset=utf-8'',
       EndHeaders,
       WFileWrite (TextBody (MsgStarted ''contents''))], mk_fs [] [] []) \<and>
   do_GET clk0 (mk_fs [] [] []) ''/run/backup'' =
     ([SendError 404 (Some (MsgText ''Script not found''))], mk_fs [] [] [])"
  using do_GET_run [of "''contents''" clk0 "mk_fs [] [] []"]
        do_GET_run [of "''backup''" clk0 "mk_fs [] [] []"]
  by (simp add: SCRIPT_PATHS_def)

section \<open>Facts about the archive listing and the retention loop\<close>

lemma available_loop_append:
  "available_loop fs zs files =
     files @ concat (map (\<lambda>z. case lookup fs (zips_path @ [z]) of None \<Rightarrow> [] | Some n \<Rightarrow> [archive_info z n]) zs)"
  by (induction zs arbitrary: files) (auto simp: Let_def archive_info_def split: option.splits)

lemma get_available_files_eq:
  "get_available_files fs =
     concat (map (\<lambda>z. case lookup fs (zips_path @ [z]) of None \<Rightarrow> [] | Some n \<Rightarrow> [archive_info z n]) zip_files)"
  by (simp add: get_available_files_def available_loop_append)


lemma available_paths:
  "f \<in> set (get_available_files fs) \<Longrightarrow> fi_path f = zips_path @ [fi_name f] \<and> fi_name f \<in> set zip_files
     \<and> lookup fs (fi_path f) \<noteq> None"
  by (auto simp: get_available_files_eq zip_files_def archive_info_def split: option.splits)
     metis+

lemma available_distinct: "distinct (map fi_path (get_available_files fs))"
  by (simp add: get_available_files_eq zip_files_def archive_info_def split: option.splits)


lemma cleanup_loop_keeps:
  assumes "\<forall>f \<in> set fis. \<not> prefix (fi_path f) q \<and> \<not> prefix q (fi_path f)"
  shows "cleanup_loop c fis (k, out, fs) = Inl (e, out', fs') \<Longrightarrow> lookup fs' q = lookup fs q"
    and "cleanup_loop c fis (k, out, fs) = Inr (k', out', fs') \<Longrightarrow> lookup fs' q = lookup fs q"
  using assms
proof (induction fis arbitrary: k out fs)
  case Nil
  { case 1 then show ?case by simp }
  { case 2 then show ?case by simp }
next
  case (Cons f fis)
  { case 1
    then show ?case
      using Cons.IH(1) remove_lookup_other(1)
      by (auto simp: Let_def split: sum.splits if_splits) }
  { case 2
    then show ?case
      using Cons.IH(2) remove_lookup_other(1)
      by (auto simp: Let_def split: sum.splits if_splits) }
qed

lemma cleanup_loop_fail:
  assumes "cleanup_loop c fis (k, out, fs) = Inl (e, out', fs')"
    and "\<forall>f \<in> set fis. \<exists>z. fi_path f = zips_path @ [z]"
    and "distinct (map fi_path fis)"
  shows "\<exists>del. out' = out @ map (\<lambda>f. MsgDeletedOld (fi_name f)) del \<and> set del \<subseteq> set fis \<and>
           (\<forall>f \<in> set del. lookup fs' (fi_path f) = None)"
  using assms
proof (induction fis arbitrary: k out fs)
  case Nil
  then show ?case by simp
next
  case (Cons f fis)
  let ?p = "fi_path f"
  have incomp: "\<not> prefix (fi_path g) ?p \<and> \<not> prefix ?p (fi_path g)" if "g \<in> set fis" for g
  proof -
    from Cons.prems(2) that obtain z z' where "?p = zips_path @ [z]" "fi_path g = zips_path @ [z']" by auto
    moreover from Cons.prems(3) that have "?p \<noteq> fi_path g" by auto
    ultimately show ?thesis by auto
  qed
  from Cons.prems(2,3) have rest: "\<forall>f \<in> set fis. \<exists>z. fi_path f = zips_path @ [z]" "distinct (map fi_path fis)"
    by auto
  consider
      (raise) "out' = out"
    | (skip) "cleanup_loop c fis (k, out, fs) = Inl (e, out', fs')"
    | (del) fs1 where "os_remove fs ?p ?p = Inr fs1"
        "cleanup_loop c fis (k + 1, out @ [MsgDeletedOld (fi_name f)], fs1) = Inl (e, out', fs')"
    using Cons.prems(1) by (auto simp: Let_def split: sum.splits if_splits)
  then show ?case
  proof cases
    case raise
    then have "out' = out @ map (\<lambda>f. MsgDeletedOld (fi_name f)) []" by simp
    then show ?thesis by (metis empty_iff empty_set empty_subsetI)
  next
    case skip
    from Cons.IH[OF skip rest] obtain dl where
      "out' = out @ map (\<lambda>f. MsgDeletedOld (fi_name f)) dl"
      "set dl \<subseteq> set fis" "\<forall>f \<in> set dl. lookup fs' (fi_path f) = None"
      by blast
    then have "out' = out @ map (\<lambda>f. MsgDeletedOld (fi_name f)) dl"
      "set dl \<subseteq> set (f # fis)" "\<forall>g \<in> set dl. lookup fs' (fi_path g) = None"
      by auto
    then show ?thesis by blast
  next
    case del
    from Cons.IH[OF del(2) rest] obtain dl where
      dl: "out' = (out @ [MsgDeletedOld (fi_name f)]) @ map (\<lambda>f. MsgDeletedOld (fi_name f)) dl"
        "set dl \<subseteq> set fis" "\<forall>f \<in> set dl. lookup fs' (fi_path f) = None"
      by blast
    have "lookup fs' ?p = lookup fs1 ?p"
      using cleanup_loop_keeps(1)[OF _ del(2)] incomp by blast
    then have "lookup fs' ?p = None" using remove_lookup_same(1)[OF del(1)] by simp
    with dl have "out' = out @ map (\<lambda>f. MsgDeletedOld (fi_name f)) (f # dl)"
      "set (f # dl) \<subseteq> set (f # fis)" "\<forall>g \<in> set (f # dl). lookup fs' (fi_path g) = None"
      by auto
    then show ?thesis by blast
  qed
qed










section \<open>C6: what the retention manager deletes\<close>




section \<open>C10: an exception during cleanup\<close>

text \<open>
  C10: if the body of the \<^verbatim>\<open>try\<close> block of \<^verbatim>\<open>cleanup_old_files\<close> raises, be it in
  the loop or before it, the function returns the count 0 and the error message for that
  exception, whatever was deleted before; the file system it leaves is the one of the
  moment of the exception, in which every archive reported as deleted is gone. In the
  example below one archive was deleted and the returned count is 0.
\<close>

theorem cleanup_old_files_exception:
  assumes "cleanup_try now days fs = Inl (e, out, fs')"
  shows "cleanup_old_files now days fs = ((0, MsgCleanupError e), out, fs') \<and>
         (\<forall>f \<in> set (get_available_files fs).
            MsgDeletedOld (fi_name f) \<in> set out \<longrightarrow> lookup fs' (fi_path f) = None)"
proof -
  have 1: "cleanup_old_files now days fs = ((0, MsgCleanupError e), out, fs')"
    using assms by (simp add: cleanup_old_files_def)
  have 2: "lookup fs' (fi_path f) = None"
    if f: "f \<in> set (get_available_files fs)" and m: "MsgDeletedOld (fi_name f) \<in> set out" for f
  proof (cases "cutoff now days")
    case (Inl e')
    with assms have "out = []" by (simp add: cleanup_try_def)
    with m show ?thesis by simp
  next
    case (Inr c)
    with assms have l: "cleanup_loop c (get_available_files fs) (0, [], fs) = Inl (e, out, fs')"
      by (simp add: cleanup_try_def)
    have "\<forall>f \<in> set (get_available_files fs). \<exists>z. fi_path f = zips_path @ [z]"
      using available_paths by blast
    from cleanup_loop_fail[OF l this available_distinct] obtain dl where
      dl: "out = map (\<lambda>f. MsgDeletedOld (fi_name f)) dl" "set dl \<subseteq> set (get_available_files fs)"
        "\<forall>f \<in> set dl. lookup fs' (fi_path f) = None"
      by auto
    from m dl(1) obtain g where g: "g \<in> set dl" "fi_name g = fi_name f" by auto
    with dl(2) have "g \<in> set (get_available_files fs)" by auto
    with f g(2) have "fi_path g = fi_path f" using available_paths by metis
    with dl(3) g(1) show ?thesis by auto
  qed
  from 1 2 show ?thesis by blast
qed

theorem cleanup_old_files_exception_witness:
  "cleanup_old_files 1000000 7 fs_old_dir =
     ((0, MsgCleanupError (PermissionError (zips_path @ [''comments.zip'']))),
      [MsgDeletedOld ''contents.zip''],
      mk_fs [(''comments.zip'', Dir 136000 0 [])] [] []) \<and>
   lookup fs_old_dir (zips_path @ [''contents.zip'']) = Some (File 136000 [1, 2, 3]) \<and>
   lookup (mk_fs [(''comments.zip'', Dir 136000 0 [])] [] []) (zips_path @ [''contents.zip'']) = None"
proof -
  have c: "cutoff 1000000 7 = Inr 395200"
    by (simp add: cutoff_def FLOAT_LIMIT_def)
  have l: "cleanup_try 1000000 7 fs_old_dir =
      Inl (PermissionError (zips_path @ [''comments.zip'']), [MsgDeletedOld ''contents.zip''],
           mk_fs [(''comments.zip'', Dir 136000 0 [])] [] [])"
    by (simp add: cleanup_try_def c get_available_files_def zip_files_def fs_old_dir_def mk_fs_def
          zips_path_def getctime_def Let_def)
  show ?thesis
    using cleanup_old_files_exception[OF l]
    by (simp add: fs_old_dir_def lookup_zip_mk_fs)
qed

section \<open>C3: the response to \<^verbatim>\<open>GET /cleanup\<close>\<close>




section \<open>Facts about decimal numbers and ISO 8601 texts\<close>










section \<open>C2: the response to \<^verbatim>\<open>GET /status\<close>\<close>




section \<open>Facts about block-wise copying\<close>




section \<open>C7: the response to \<^verbatim>\<open>GET /download/{archiveName}\<close>\<close>



section \<open>Facts about the walk and the archive entries\<close>

lemma walked_files_simps [simp]:
  "walked_files [] = []"
  "walked_files ((dir, dirs, files) # ts) = map (\<lambda>(file, d). (dir @ [file], d)) files @ walked_files ts"
  "walked_files (ts @ ts') = walked_files ts @ walked_files ts'"
  by (simp_all add: walked_files_def)

lemma zip_entries_walked:
  "zip_entries folder_path n =
     map (\<lambda>(p, d). (relpath p (dirname folder_path), d)) (walked_files (os_walk folder_path n))"
  by (simp add: zip_entries_def walked_files_def map_concat comp_def case_prod_unfold)

lemma filenames_keys: "(k, d) \<in> set (filenames es) \<Longrightarrow> k \<in> fst ` set es"
  by (induction es rule: filenames.induct) auto

lemma lookup_in_absent: "k \<notin> fst ` set es \<Longrightarrow> lookup_in es k ks = None"
  by (induction es) auto

lemma filenames_set:
  "distinct (map fst es) \<Longrightarrow>
     (k, d) \<in> set (filenames es) \<longleftrightarrow> (\<exists>c. lookup_in es k [] = Some (File c d))"
proof (induction es rule: filenames.induct)
  case 1
  then show ?case by simp
next
  case (2 k' c' d' es)
  then have "k' \<notin> fst ` set es" by simp
  then have "(k', d) \<notin> set (filenames es)" using filenames_keys by blast
  with 2 show ?case by auto
next
  case (3 k' c' s' es' es)
  then have "k' \<notin> fst ` set es" by simp
  then have "(k', d) \<notin> set (filenames es)" using filenames_keys by blast
  with 3 show ?case by auto
qed

lemma in_joined_files:
  "(p, d) \<in> set (map (\<lambda>(file, d). (dir @ [file], d)) fls) \<longleftrightarrow> (\<exists>k. p = dir @ [k] \<and> (k, d) \<in> set fls)"
  by force

lemma walk_set:
  "wf_node n \<Longrightarrow>
     (p, d) \<in> set (walked_files (os_walk dir n)) \<longleftrightarrow>
       (\<exists>rel c. rel \<noteq> [] \<and> p = dir @ rel \<and> lookup n rel = Some (File c d))"
  "wf_entries es \<Longrightarrow> distinct (map fst es) \<Longrightarrow>
     (p, d) \<in> set (walked_files (walk_subdirs dir es)) \<longleftrightarrow>
       (\<exists>k rel c. rel \<noteq> [] \<and> p = dir @ k # rel \<and> lookup_in es k rel = Some (File c d))"
proof (induction dir n and dir es arbitrary: p and p rule: os_walk_walk_subdirs.induct)
  case (1 dir c d')
  show ?case
  proof
    assume "\<exists>rel c'. rel \<noteq> [] \<and> p = dir @ rel \<and> lookup (File c d') rel = Some (File c' d)"
    then obtain rel c' where "rel \<noteq> []" "lookup (File c d') rel = Some (File c' d)" by blast
    then show "(p, d) \<in> set (walked_files (os_walk dir (File c d')))" by (cases rel) auto
  qed simp
next
  case (2 dir c s es)
  from "2.prems" have wf: "wf_entries es" "distinct (map fst es)" by auto
  have files: "(p, d) \<in> set (map (\<lambda>(file, d). (dir @ [file], d)) (filenames es)) \<longleftrightarrow>
      (\<exists>k c. p = dir @ [k] \<and> lookup_in es k [] = Some (File c d))"
    using filenames_set[OF wf(2)] unfolding in_joined_files by blast
  have "(p, d) \<in> set (walked_files (os_walk dir (Dir c s es))) \<longleftrightarrow>
      (\<exists>k c. p = dir @ [k] \<and> lookup_in es k [] = Some (File c d)) \<or>
      (\<exists>k rel c. rel \<noteq> [] \<and> p = dir @ k # rel \<and> lookup_in es k rel = Some (File c d))"
    using files "2.IH"[OF wf] by simp
  also have "\<dots> \<longleftrightarrow> (\<exists>rel c'. rel \<noteq> [] \<and> p = dir @ rel \<and> lookup (Dir c s es) rel = Some (File c' d))"
  proof
    assume "(\<exists>k c. p = dir @ [k] \<and> lookup_in es k [] = Some (File c d)) \<or>
      (\<exists>k rel c. rel \<noteq> [] \<and> p = dir @ k # rel \<and> lookup_in es k rel = Some (File c d))"
    then show "\<exists>rel c'. rel \<noteq> [] \<and> p = dir @ rel \<and> lookup (Dir c s es) rel = Some (File c' d)"
    proof
      assume "\<exists>k c. p = dir @ [k] \<and> lookup_in es k [] = Some (File c d)"
      then obtain k c' where "p = dir @ [k]" "lookup (Dir c s es) [k] = Some (File c' d)" by auto
      then show ?thesis by (metis list.distinct(1))
    next
      assume "\<exists>k rel c. rel \<noteq> [] \<and> p = dir @ k # rel \<and> lookup_in es k rel = Some (File c d)"
      then obtain k rel c' where "p = dir @ k # rel" "lookup (Dir c s es) (k # rel) = Some (File c' d)" by auto
      then show ?thesis by (metis list.distinct(1))
    qed
  next
    assume "\<exists>rel c'. rel \<noteq> [] \<and> p = dir @ rel \<and> lookup (Dir c s es) rel = Some (File c' d)"
    then obtain rel c' where r: "rel \<noteq> []" "p = dir @ rel" "lookup (Dir c s es) rel = Some (File c' d)"
      by blast
    then obtain k ks where k: "rel = k # ks" by (cases rel) auto
    with r have "lookup_in es k ks = Some (File c' d)" by simp
    with r k show "(\<exists>k c. p = dir @ [k] \<and> lookup_in es k [] = Some (File c d)) \<or>
      (\<exists>k rel c. rel \<noteq> [] \<and> p = dir @ k # rel \<and> lookup_in es k rel = Some (File c d))"
      by (cases ks) auto
  qed
  finally show ?case .
next
  case (3 dir)
  then show ?case by simp
next
  case (4 dir k n es)
  from "4.prems" have wf: "wf_node n" "wf_entries es" "distinct (map fst es)" "k \<notin> fst ` set es"
    by auto
  have a: "(p, d) \<in> set (walked_files (os_walk (dir @ [k]) n)) \<longleftrightarrow>
       (\<exists>rel c. rel \<noteq> [] \<and> p = dir @ k # rel \<and> lookup n rel = Some (File c d))"
    using "4.IH"(1)[OF wf(1)] by simp
  have b: "(p, d) \<in> set (walked_files (walk_subdirs dir es)) \<longleftrightarrow>
       (\<exists>k rel c. rel \<noteq> [] \<and> p = dir @ k # rel \<and> lookup_in es k rel = Some (File c d))"
    using "4.IH"(2)[OF wf(2,3)] .
  show ?case
  proof
    assume "(p, d) \<in> set (walked_files (walk_subdirs dir ((k, n) # es)))"
    then consider "(p, d) \<in> set (walked_files (os_walk (dir @ [k]) n))"
      | "(p, d) \<in> set (walked_files (walk_subdirs dir es))" by auto
    then show "\<exists>k' rel c. rel \<noteq> [] \<and> p = dir @ k' # rel \<and> lookup_in ((k, n) # es) k' rel = Some (File c d)"
    proof cases
      case 1
      with a obtain rel c where "rel \<noteq> []" "p = dir @ k # rel" "lookup n rel = Some (File c d)" by blast
      then have "rel \<noteq> [] \<and> p = dir @ k # rel \<and> lookup_in ((k, n) # es) k rel = Some (File c d)" by simp
      then show ?thesis by blast
    next
      case 2
      with b obtain k' rel c where r: "rel \<noteq> []" "p = dir @ k' # rel" "lookup_in es k' rel = Some (File c d)"
        by blast
      then have "k' \<noteq> k" using lookup_in_absent[OF wf(4)] by auto
      with r have "rel \<noteq> [] \<and> p = dir @ k' # rel \<and> lookup_in ((k, n) # es) k' rel = Some (File c d)" by simp
      then show ?thesis by blast
    qed
  next
    assume "\<exists>k' rel c. rel \<noteq> [] \<and> p = dir @ k' # rel \<and> lookup_in ((k, n) # es) k' rel = Some (File c d)"
    then obtain k' rel c where r: "rel \<noteq> []" "p = dir @ k' # rel"
      "lookup_in ((k, n) # es) k' rel = Some (File c d)" by blast
    show "(p, d) \<in> set (walked_files (walk_subdirs dir ((k, n) # es)))"
    proof (cases "k' = k")
      case True
      with r have "(p, d) \<in> set (walked_files (os_walk (dir @ [k]) n))" using a by auto
      then show ?thesis by simp
    next
      case False
      with r have "(p, d) \<in> set (walked_files (walk_subdirs dir es))" using b by auto
      then show ?thesis by simp
    qed
  qed
qed

lemma longest_common_prefix_append: "longest_common_prefix xs (xs @ ys) = xs"
  by (induction xs) auto

lemma relpath_under: "relpath (start @ rel) start = rel"
  by (simp add: relpath_def longest_common_prefix_append)

lemma relpath_dirname: "folder \<noteq> [] \<Longrightarrow> relpath (folder @ rel) (dirname folder) = last folder # rel"
proof -
  assume "folder \<noteq> []"
  then have "folder @ rel = dirname folder @ (last folder # rel)"
    by (simp add: dirname_def)
  then show ?thesis by (simp only: relpath_under)
qed

lemma zip_entries_set:
  assumes "wf_node n" "folder \<noteq> []"
  shows "(a, d) \<in> set (zip_entries folder n) \<longleftrightarrow>
           (\<exists>rel c. rel \<noteq> [] \<and> a = last folder # rel \<and> lookup n rel = Some (File c d))"
proof
  assume "(a, d) \<in> set (zip_entries folder n)"
  then obtain p where p: "(p, d) \<in> set (walked_files (os_walk folder n))"
    "a = relpath p (dirname folder)"
    by (auto simp: zip_entries_walked)
  from p(1) walk_set(1)[OF assms(1)] obtain rel c where
    "rel \<noteq> []" "p = folder @ rel" "lookup n rel = Some (File c d)" by blast
  with p(2) assms(2) show "\<exists>rel c. rel \<noteq> [] \<and> a = last folder # rel \<and> lookup n rel = Some (File c d)"
    by (auto simp: relpath_dirname)
next
  assume "\<exists>rel c. rel \<noteq> [] \<and> a = last folder # rel \<and> lookup n rel = Some (File c d)"
  then obtain rel c where r: "rel \<noteq> []" "a = last folder # rel" "lookup n rel = Some (File c d)"
    by blast
  then have "(folder @ rel, d) \<in> set (walked_files (os_walk folder n))"
    using walk_set(1)[OF assms(1)] by blast
  moreover have "a = relpath (folder @ rel) (dirname folder)"
    using r(2) assms(2) by (simp add: relpath_dirname)
  ultimately show "(a, d) \<in> set (zip_entries folder n)"
    by (force simp: zip_entries_walked)
qed

lemma filenames_distinct: "distinct (map fst es) \<Longrightarrow> distinct (map fst (filenames es))"
proof (induction es rule: filenames.induct)
  case 1
  then show ?case by simp
next
  case (2 k c d es)
  then have "k \<notin> fst ` set (filenames es)" using filenames_keys by fastforce
  with 2 show ?case by simp
next
  case (3 k c s es' es)
  then show ?case by simp
qed

lemma walked_paths:
  "map fst (map (\<lambda>(file, d). (dir @ [file], d)) fls) = map (\<lambda>k. dir @ [k]) (map fst fls)"
  by (induction fls) auto

lemma walk_distinct:
  "wf_node n \<Longrightarrow> distinct (map fst (walked_files (os_walk dir n)))"
  "wf_entries es \<Longrightarrow> distinct (map fst es) \<Longrightarrow> distinct (map fst (walked_files (walk_subdirs dir es)))"
proof (induction dir n and dir es rule: os_walk_walk_subdirs.induct)
  case (1 dir c d)
  then show ?case by simp
next
  case (2 dir c s es)
  from "2.prems" have wf: "wf_entries es" "distinct (map fst es)" by auto
  have a: "distinct (map fst (map (\<lambda>(file, d). (dir @ [file], d)) (filenames es)))"
    unfolding walked_paths using filenames_distinct[OF wf(2)]
    by (simp add: distinct_map inj_on_def)
  have b: "distinct (map fst (walked_files (walk_subdirs dir es)))"
    using "2.IH"[OF wf] .
  have c: "p \<notin> fst ` set (walked_files (walk_subdirs dir es))"
    if "p \<in> fst ` set (map (\<lambda>(file, d). (dir @ [file], d)) (filenames es))" for p
  proof
    assume "p \<in> fst ` set (walked_files (walk_subdirs dir es))"
    then obtain d where "(p, d) \<in> set (walked_files (walk_subdirs dir es))" by auto
    with walk_set(2)[OF wf] obtain k rel where "rel \<noteq> []" "p = dir @ k # rel" by blast
    moreover from that obtain k' where "p = dir @ [k']" by auto
    ultimately show False by simp
  qed
  show ?case using a b c by (auto simp del: map_map)
next
  case (3 dir)
  then show ?case by simp
next
  case (4 dir k n es)
  from "4.prems" have wf: "wf_node n" "wf_entries es" "distinct (map fst es)" "k \<notin> fst ` set es"
    by auto
  have a: "distinct (map fst (walked_files (os_walk (dir @ [k]) n)))" using "4.IH"(1)[OF wf(1)] .
  have b: "distinct (map fst (walked_files (walk_subdirs dir es)))" using "4.IH"(2)[OF wf(2,3)] .
  have c: "p \<notin> fst ` set (walked_files (walk_subdirs dir es))"
    if "p \<in> fst ` set (walked_files (os_walk (dir @ [k]) n))" for p
  proof
    assume "p \<in> fst ` set (walked_files (walk_subdirs dir es))"
    then obtain d where "(p, d) \<in> set (walked_files (walk_subdirs dir es))" by auto
    with walk_set(2)[OF wf(2,3)] obtain k' rel c' where
      r: "p = dir @ k' # rel" "lookup_in es k' rel = Some (File c' d)" by blast
    then have "k' \<noteq> k" using lookup_in_absent[OF wf(4)] by auto
    moreover from that obtain d' where "(p, d') \<in> set (walked_files (os_walk (dir @ [k]) n))" by auto
    with walk_set(1)[OF wf(1)] obtain rel' where "p = (dir @ [k]) @ rel'" by blast
    ultimately show False using r(1) by simp
  qed
  show ?case using a b c by auto
qed

lemma zip_entries_distinct:
  assumes "wf_node n" "folder \<noteq> []"
  shows "distinct (map fst (zip_entries folder n))"
proof -
  define ps where "ps = map fst (walked_files (os_walk folder n))"
  have m: "map fst (zip_entries folder n) = map (\<lambda>p. relpath p (dirname folder)) ps"
    by (simp add: ps_def zip_entries_walked comp_def case_prod_unfold)
  have d: "distinct ps" unfolding ps_def using walk_distinct(1)[OF assms(1)] .
  have inj: "inj_on (\<lambda>p. relpath p (dirname folder)) (set ps)"
  proof (rule inj_onI)
    fix p q
    assume p: "p \<in> set ps" and q: "q \<in> set ps"
      and e: "relpath p (dirname folder) = relpath q (dirname folder)"
    from p obtain d where "(p, d) \<in> set (walked_files (os_walk folder n))" by (auto simp: ps_def)
    with walk_set(1)[OF assms(1)] obtain rel where rp: "p = folder @ rel" by blast
    from q obtain d' where "(q, d') \<in> set (walked_files (os_walk folder n))" by (auto simp: ps_def)
    with walk_set(1)[OF assms(1)] obtain rel' where rq: "q = folder @ rel'" by blast
    from e rp rq assms(2) show "p = q" by (simp add: relpath_dirname)
  qed
  show ?thesis unfolding m using d inj by (simp add: distinct_map)
qed

lemma compress_folder_eq:
  "folder_name = ''contents'' \<or> folder_name = ''comments'' \<Longrightarrow>
     compress_folder enc self now fs folder_name =
       compress_at enc now fs (folder_of self folder_name) (folder_name @ ''.zip'')"
  by (auto simp: compress_folder_def folder_of_def)

lemma write_file_zip_ok:
  assumes "isdir fs zips_path" "\<not> isdir fs (zips_path @ [z])"
  shows "\<exists>fs'. write_file fs (zips_path @ [z]) full now d = Inr fs'"
proof -
  from assms(1) have 1: "\<exists>c s es0. lookup fs (butlast (zips_path @ [z])) = Some (Dir c s es0)"
    by (auto simp: isdir_def split: option.splits node.splits)
  from assms(2) have 2: "\<forall>c s es0. lookup fs (zips_path @ [z]) \<noteq> Some (Dir c s es0)"
    by (auto simp: isdir_def)
  show ?thesis using write_ok(1)[OF _ 1 2] by simp
qed

text \<open>
  The archive is opened before the walk starts. This makes no difference to the walk:
  the archive path never lies inside an output folder, whatever the desktop path is.
\<close>

lemma folder_not_above_zip:
  assumes "folder_name = ''contents'' \<or> folder_name = ''comments''"
    and "z = ''contents'' \<or> z = ''comments''"
  shows "\<not> prefix (folder_of (FileManager home desktop) folder_name) (zip_of z)"
proof
  assume "prefix (folder_of (FileManager home desktop) folder_name) (zip_of z)"
  moreover from assms(1) obtain dp where "folder_of (FileManager home desktop) folder_name = dp @ [folder_name]"
    by (auto simp: folder_of_def FileManager_def Let_def)
  ultimately have "folder_name \<in> set (zip_of z)"
    by (auto simp: prefix_def)
  with assms show False
    by (auto simp: zip_of_def zips_path_def)
qed

section \<open>C9: what the archive operation writes\<close>

text \<open>
  C9: for every output folder that exists (with pairwise distinct names in each of its
  directories), when the archive directory exists and no directory occupies the archive
  path, \<^verbatim>\<open>compress_folder\<close> succeeds and leaves at the fixed archive path of the job a
  file holding the deflate-compressed archive of the entries of the walk: there is one
  entry for every regular file anywhere under the folder and for nothing else, its data
  are the bytes of the file, and its archive name is the name of the folder followed by
  the path of the file below the folder; no archive name occurs twice. Whatever file was at the archive path is
  replaced.
\<close>

theorem compress_folder_archives_folder:
  assumes "folder_name = ''contents'' \<or> folder_name = ''comments''"
    and "lookup fs (folder_of (FileManager home desktop) folder_name) = Some n"
    and "wf_node n"
    and "isdir fs zips_path"
    and "\<not> isdir fs (zip_of folder_name)"
  shows "\<exists>fs'. (let entries = zip_entries (folder_of (FileManager home desktop) folder_name) n;
                    message = MsgCompressed (folder_name @ ''.zip'') (length entries)
                                (length (enc ZIP_DEFLATED entries))
                in compress_folder enc (FileManager home desktop) now fs folder_name =
                     ((True, message, Some (zip_of folder_name)),
                      [MsgCompressStart (folder_of (FileManager home desktop) folder_name) (zip_of folder_name),
                       message], fs') \<and>
                   read_file fs' (zip_of folder_name) = Inr (enc ZIP_DEFLATED entries) \<and>
                   distinct (map fst entries) \<and>
                   (\<forall>a d. (a, d) \<in> set entries \<longleftrightarrow>
                      (\<exists>rel c. rel \<noteq> [] \<and> a = folder_name # rel \<and> lookup n rel = Some (File c d))))"
proof -
  let ?folder = "folder_of (FileManager home desktop) folder_name"
  let ?entries = "zip_entries ?folder n"
  let ?zp = "zip_of folder_name"
  have ne: "?folder \<noteq> []" and last: "last ?folder = folder_name"
    using assms(1) by (auto simp: folder_of_def FileManager_def Let_def)
  from write_file_zip_ok[OF assms(4) assms(5)[unfolded zip_of_def]] obtain fs' where
    w: "write_file fs ?zp ?zp now (enc ZIP_DEFLATED ?entries) = Inr fs'"
    unfolding zip_of_def by blast
  from write_lookup_same(1)[OF w] obtain c where l: "lookup fs' ?zp = Some (File c (enc ZIP_DEFLATED ?entries))"
    by blast
  have r: "read_file fs' ?zp = Inr (enc ZIP_DEFLATED ?entries)"
    and g: "getsize fs' ?zp = Inr (length (enc ZIP_DEFLATED ?entries))"
    using l by (simp_all add: read_file_def getsize_def)
  have c: "compress_folder enc (FileManager home desktop) now fs folder_name =
      ((True, MsgCompressed (folder_name @ ''.zip'') (length ?entries) (length (enc ZIP_DEFLATED ?entries)),
        Some ?zp),
       [MsgCompressStart ?folder ?zp,
        MsgCompressed (folder_name @ ''.zip'') (length ?entries) (length (enc ZIP_DEFLATED ?entries))],
       fs')"
    using assms(2) w g
    by (simp add: compress_folder_eq[OF assms(1)] compress_at_def compress_try_def Let_def zip_of_def)
  have s: "(a, d) \<in> set ?entries \<longleftrightarrow>
      (\<exists>rel c. rel \<noteq> [] \<and> a = folder_name # rel \<and> lookup n rel = Some (File c d))" for a d
    using zip_entries_set[OF assms(3) ne] last by simp
  have d: "distinct (map fst ?entries)"
    using zip_entries_distinct[OF assms(3) ne] .
  show ?thesis unfolding Let_def using c r d s by blast
qed

theorem compress_folder_archives_folder_witness:
  "compress_folder enc0 (FileManager home0 None) 2000000 fs_comments ''comments'' =
     ((True, MsgCompressed ''comments.zip'' 2 3, Some (zips_path @ [''comments.zip''])),
      [MsgCompressStart (home0 @ [''Desktop'', ''comments'']) (zips_path @ [''comments.zip'']),
       MsgCompressed ''comments.zip'' 2 3],
      mk_fs [(''comments.zip'', File 2000000 [20, 21, 22])]
        [(''comments'', Dir 0 0 [(''words.csv'', File 7 [20]),
                                (''img'', Dir 0 0 [(''cloud.png'', File 8 [21, 22])])])]
        []) \<and>
   zip_entries (home0 @ [''Desktop'', ''comments''])
       (Dir 0 0 [(''words.csv'', File 7 [20]), (''img'', Dir 0 0 [(''cloud.png'', File 8 [21, 22])])]) =
     [([''comments'', ''words.csv''], [20]), ([''comments'', ''img'', ''cloud.png''], [21, 22])]"
proof -
  let ?n = "Dir 0 0 [(''words.csv'', File 7 [20]), (''img'', Dir 0 0 [(''cloud.png'', File 8 [21, 22])])]"
  have f: "folder_of (FileManager home0 None) ''comments'' = home0 @ [''Desktop'', ''comments'']"
    by (simp add: folder_of_def FileManager_def)
  have 1: "''comments'' = ''contents'' \<or> ''comments'' = ''comments''" by simp
  have 2: "lookup fs_comments (folder_of (FileManager home0 None) ''comments'') = Some ?n"
    unfolding f by (simp add: fs_comments_def mk_fs_def home0_def)
  have 3: "wf_node ?n" by simp
  have 4: "isdir fs_comments zips_path"
    by (simp add: isdir_def fs_comments_def mk_fs_def zips_path_def)
  have 5: "\<not> isdir fs_comments (zip_of ''comments'')"
    by (simp add: isdir_def fs_comments_def mk_fs_def zips_path_def zip_of_def)
  have e: "zip_entries (home0 @ [''Desktop'', ''comments'']) ?n =
     [([''comments'', ''words.csv''], [20]), ([''comments'', ''img'', ''cloud.png''], [21, 22])]"
    by (simp add: zip_entries_def relpath_def dirname_def home0_def)
  have c: "compress_folder enc0 (FileManager home0 None) 2000000 fs_comments ''comments'' =
     ((True, MsgCompressed ''comments.zip'' 2 3, Some (zips_path @ [''comments.zip''])),
      [MsgCompressStart (home0 @ [''Desktop'', ''comments'']) (zips_path @ [''comments.zip'']),
       MsgCompressed ''comments.zip'' 2 3],
      mk_fs [(''comments.zip'', File 2000000 [20, 21, 22])] [(''comments'', ?n)] [])"
    by (simp add: compress_folder_def compress_at_def compress_try_def FileManager_def Let_def
          zip_entries_def relpath_def dirname_def getsize_def enc0_def fs_comments_def
          mk_fs_def zips_path_def home0_def)
  have ev: "enc0 ZIP_DEFLATED [([''comments'', ''words.csv''], [20]),
                              ([''comments'', ''img'', ''cloud.png''], [21, 22])] = [20, 21, 22]"
    by (simp add: enc0_def)
  from compress_folder_archives_folder[OF 1 2 3 4 5, of enc0 2000000]
  have "\<exists>fs'. read_file fs' (zips_path @ [''comments'' @ ''.zip'']) = Inr [20, 21, 22]"
    unfolding Let_def f e zip_of_def ev by (elim exE conjE) (rule exI)
  with c e show ?thesis by simp
qed

section \<open>Facts about the listing of a directory after a write\<close>

lemma write_in_names:
  "write_in es k [] full now d = Inr es' \<Longrightarrow>
     map fst es' = (if k \<in> fst ` set es then map fst es else map fst es @ [k])"
  by (induction es arbitrary: es') (force split: if_splits sum.splits node.splits)+

lemma write_in_descend:
  "write_in es a ks full now d = Inr es' \<Longrightarrow> ks \<noteq> [] \<Longrightarrow>
     \<exists>m m'. lookup_in es a [] = Some m \<and> write_file m ks full now d = Inr m' \<and>
            (\<forall>q. lookup_in es a q = lookup m q) \<and> (\<forall>q. lookup_in es' a q = lookup m' q)"
proof (induction es arbitrary: es')
  case Nil
  then show ?case by simp
next
  case (Cons e es)
  obtain k' n where e: "e = (k', n)" by (cases e)
  show ?case
  proof (cases "k' = a")
    case True
    with Cons.prems e obtain n' where "write_file n ks full now d = Inr n'" "es' = (k', n') # es"
      by (auto split: list.splits sum.splits)
    with True e show ?thesis by auto
  next
    case False
    with Cons.prems e obtain es2 where "write_in es a ks full now d = Inr es2" "es' = (k', n) # es2"
      by (auto split: sum.splits)
    with Cons.IH[OF this(1) Cons.prems(2)] False e show ?thesis by auto
  qed
qed

lemma write_file_listing:
  "write_file n (dir @ [k]) full now d = Inr n' \<Longrightarrow>
     \<exists>c s es es'. lookup n dir = Some (Dir c s es) \<and> lookup n' dir = Some (Dir c s es') \<and>
        map fst es' = (if k \<in> fst ` set es then map fst es else map fst es @ [k])"
proof (induction dir arbitrary: n n')
  case Nil
  then obtain c s es es' where "n = Dir c s es" "n' = Dir c s es'" "write_in es k [] full now d = Inr es'"
    by (cases n) (auto split: sum.splits)
  with write_in_names[OF this(3)] show ?case by auto
next
  case (Cons a dir)
  then obtain c s es es' where n: "n = Dir c s es" "n' = Dir c s es'"
    "write_in es a (dir @ [k]) full now d = Inr es'"
    by (cases n) (auto split: sum.splits)
  from write_in_descend[OF n(3)] obtain m m' where
    m: "write_file m (dir @ [k]) full now d = Inr m'"
      "\<forall>q. lookup_in es a q = lookup m q" "\<forall>q. lookup_in es' a q = lookup m' q"
    by auto
  from Cons.IH[OF m(1)] m(2,3) n(1,2) show ?case by simp
qed

lemma listdir_after_write:
  "write_file fs (dir @ [k]) full now d = Inr fs' \<Longrightarrow>
     listdir fs' dir = (if k \<in> set (listdir fs dir) then listdir fs dir else listdir fs dir @ [k])"
  using write_file_listing[of fs dir k full now d fs'] by (force simp: listdir_def)

section \<open>C4: one archive per job, replaced by each successful run\<close>

text \<open>
  C4: whenever \<^verbatim>\<open>compress_folder\<close> succeeds, the file at the archive path of the job
  holds the archive of the entries of the output folder as it is now, whatever was at
  that path before (an archive of an earlier run included); every path that is neither
  the archive path nor above or below it is unchanged; and the archive directory lists
  the same names as before, with the archive name of the job added if it was not there.
  So a job never has more than the one archive file at its archive path, and after a
  later run that file reflects the later output only.
\<close>

theorem compress_folder_replaces_archive:
  assumes "compress_folder enc (FileManager home desktop) now fs folder_name = ((True, message, zp), out, fs')"
  shows "(folder_name = ''contents'' \<or> folder_name = ''comments'') \<and>
         zp = Some (zip_of folder_name) \<and>
         (\<exists>n. lookup fs (folder_of (FileManager home desktop) folder_name) = Some n \<and>
              read_file fs' (zip_of folder_name) =
                Inr (enc ZIP_DEFLATED (zip_entries (folder_of (FileManager home desktop) folder_name) n))) \<and>
         (\<forall>q. \<not> prefix (zip_of folder_name) q \<and> \<not> prefix q (zip_of folder_name) \<longrightarrow>
              lookup fs' q = lookup fs q) \<and>
         listdir fs' zips_path =
           (if folder_name @ ''.zip'' \<in> set (listdir fs zips_path) then listdir fs zips_path
            else listdir fs zips_path @ [folder_name @ ''.zip''])"
proof -
  let ?folder = "folder_of (FileManager home desktop) folder_name"
  let ?zp = "zip_of folder_name"
  from assms have fn: "folder_name = ''contents'' \<or> folder_name = ''comments''"
    by (auto simp: compress_folder_def split: if_splits)
  from assms have ca: "compress_at enc now fs ?folder (folder_name @ ''.zip'') = ((True, message, zp), out, fs')"
    by (simp add: compress_folder_eq[OF fn])
  then obtain n where n: "lookup fs ?folder = Some n"
    and w: "write_file fs ?zp ?zp now (enc ZIP_DEFLATED (zip_entries ?folder n)) = Inr fs'"
    and z: "zp = Some ?zp"
    by (auto simp: compress_at_def compress_try_def Let_def zip_of_def
          split: option.splits sum.splits prod.splits)
  from write_lookup_same(1)[OF w] have r: "read_file fs' ?zp = Inr (enc ZIP_DEFLATED (zip_entries ?folder n))"
    by (auto simp: read_file_def)
  have o: "lookup fs' q = lookup fs q" if "\<not> prefix ?zp q" "\<not> prefix q ?zp" for q
    using write_lookup_other(1)[OF w that] .
  have l: "listdir fs' zips_path =
           (if folder_name @ ''.zip'' \<in> set (listdir fs zips_path) then listdir fs zips_path
            else listdir fs zips_path @ [folder_name @ ''.zip''])"
    using listdir_after_write[OF w[unfolded zip_of_def]] .
  from fn z n r o l show ?thesis by blast
qed

theorem compress_folder_replaces_archive_witness:
  "compress_folder enc0 (FileManager home0 None) 2000000 fs_job ''contents'' =
     ((True, MsgCompressed ''contents.zip'' 2 3, Some (zips_path @ [''contents.zip''])),
      [MsgCompressStart (home0 @ [''Desktop'', ''contents'']) (zips_path @ [''contents.zip'']),
       MsgCompressed ''contents.zip'' 2 3],
      fs_job_archived) \<and>
   read_file fs_job (zips_path @ [''contents.zip'']) = Inr [1, 2, 3] \<and>
   read_file fs_job_archived (zips_path @ [''contents.zip'']) = Inr [10, 11, 12] \<and>
   listdir fs_job zips_path = [''contents.zip''] \<and>
   listdir fs_job_archived zips_path = [''contents.zip'']"
proof -
  have c: "compress_folder enc0 (FileManager home0 None) 2000000 fs_job ''contents'' =
     ((True, MsgCompressed ''contents.zip'' 2 3, Some (zips_path @ [''contents.zip''])),
      [MsgCompressStart (home0 @ [''Desktop'', ''contents'']) (zips_path @ [''contents.zip'']),
       MsgCompressed ''contents.zip'' 2 3],
      fs_job_archived)"
    by (simp add: compress_folder_def compress_at_def compress_try_def FileManager_def Let_def
          zip_entries_def relpath_def dirname_def getsize_def enc0_def fs_job_def fs_job_archived_def
          mk_fs_def zips_path_def home0_def)
  have r0: "read_file fs_job (zips_path @ [''contents.zip'']) = Inr [1, 2, 3]"
    by (simp add: read_file_def fs_job_def lookup_zip_mk_fs)
  have l0: "listdir fs_job zips_path = [''contents.zip'']"
    by (simp add: listdir_def fs_job_def mk_fs_def zips_path_def)
  let ?n = "Dir 0 0 [(''report.html'', File 5 [10, 11]), (''charts'', Dir 0 0 [(''a.png'', File 6 [12])])]"
  have f: "folder_of (FileManager home0 None) ''contents'' = home0 @ [''Desktop'', ''contents'']"
    by (simp add: folder_of_def FileManager_def)
  have n0: "lookup fs_job (home0 @ [''Desktop'', ''contents'']) = Some ?n"
    by (simp add: fs_job_def mk_fs_def home0_def)
  have e: "enc0 ZIP_DEFLATED (zip_entries (home0 @ [''Desktop'', ''contents'']) ?n) = [10, 11, 12]"
    by (simp add: zip_entries_def relpath_def dirname_def home0_def enc0_def)
  from compress_folder_replaces_archive[OF c] obtain n where
    n: "lookup fs_job (folder_of (FileManager home0 None) ''contents'') = Some n"
      "read_file fs_job_archived (zip_of ''contents'') =
         Inr (enc0 ZIP_DEFLATED (zip_entries (folder_of (FileManager home0 None) ''contents'') n))"
    and l: "listdir fs_job_archived zips_path =
           (if ''contents'' @ ''.zip'' \<in> set (listdir fs_job zips_path) then listdir fs_job zips_path
            else listdir fs_job zips_path @ [''contents'' @ ''.zip''])"
    by (elim exE conjE) (rule that)
  from n(1) n0 have "n = ?n" unfolding f by simp
  with n(2) e have r1: "read_file fs_job_archived (zips_path @ [''contents.zip'']) = Inr [10, 11, 12]"
    unfolding f by (simp add: zip_of_def)
  from l l0 have l1: "listdir fs_job_archived zips_path = [''contents.zip'']" by simp
  from c r0 r1 l0 l1 show ?thesis by simp
qed

section \<open>Facts about the lines a job thread prints\<close>

lemma compress_results_append [simp]:
  "compress_results (xs @ ys) = compress_results xs @ compress_results ys"
  by (induction xs rule: compress_results.induct) auto

lemma compress_at_prints:
  "compress_results (fst (snd (compress_at enc now fs folder z))) = []"
  by (auto simp: compress_at_def compress_try_def Let_def split: option.splits sum.splits prod.splits)

lemma compress_folder_prints:
  "compress_results (fst (snd (compress_folder enc self now fs folder_name))) = []"
  by (simp add: compress_folder_def compress_at_prints)

section \<open>C1: when the job runner archives\<close>

text \<open>
  C1, as stated, fails: a job that exits with code 1, run with the interpreter of the
  virtual environment, has its output folder archived all the same, and the archive of
  the earlier run is replaced.
\<close>

theorem exit_code_counterexample:
  "run_in_thread enc0 (sp_exit 1) home0 2000000 ''contents'' [''D:'', ''AutoViewScript'', ''contents.py''] fs_job =
     ([MsgScriptStart ''contents'', MsgScriptDone ''contents'', MsgOutput ''done'',
       MsgCompressStart (home0 @ [''Desktop'', ''contents'']) (zips_path @ [''contents.zip'']),
       MsgCompressed ''contents.zip'' 2 3,
       MsgCompressResult (MsgCompressed ''contents.zip'' 2 3)], fs_job_archived) \<and>
   path_exists fs_job python_exe \<and>
   read_file fs_job (zips_path @ [''contents.zip'']) = Inr [1, 2, 3] \<and>
   read_file fs_job_archived (zips_path @ [''contents.zip'']) = Inr [10, 11, 12]"
proof -
  have c: "compress_folder enc0 (FileManager home0 None) 2000000 fs_job ''contents'' =
     ((True, MsgCompressed ''contents.zip'' 2 3, Some (zips_path @ [''contents.zip''])),
      [MsgCompressStart (home0 @ [''Desktop'', ''contents'']) (zips_path @ [''contents.zip'']),
       MsgCompressed ''contents.zip'' 2 3],
      fs_job_archived)"
    by (simp add: compress_folder_def compress_at_def compress_try_def FileManager_def Let_def
          zip_entries_def relpath_def dirname_def getsize_def enc0_def fs_job_def fs_job_archived_def
          mk_fs_def zips_path_def home0_def)
  have v: "path_exists fs_job (venv_path @ [''python.exe''])"
    by (simp add: path_exists_def fs_job_def mk_fs_def venv_path_def)
  have 1: "run_in_thread enc0 (sp_exit 1) home0 2000000 ''contents'' [''D:'', ''AutoViewScript'', ''contents.py''] fs_job =
     ([MsgScriptStart ''contents'', MsgScriptDone ''contents'', MsgOutput ''done'',
       MsgCompressStart (home0 @ [''Desktop'', ''contents'']) (zips_path @ [''contents.zip'']),
       MsgCompressed ''contents.zip'' 2 3,
       MsgCompressResult (MsgCompressed ''contents.zip'' 2 3)], fs_job_archived)"
    using v c
    by (simp add: run_in_thread_def run_in_thread_try_def Let_def sp_exit_def compress_contents_def
          file_manager_def)
  have r0: "read_file fs_job (zips_path @ [''contents.zip'']) = Inr [1, 2, 3]"
    by (simp add: read_file_def fs_job_def lookup_zip_mk_fs)
  have r1: "read_file fs_job_archived (zips_path @ [''contents.zip'']) = Inr [10, 11, 12]"
    by (simp add: read_file_def fs_job_archived_def lookup_zip_mk_fs)
  from 1 v r0 r1 show ?thesis by (simp add: python_exe_def)
qed

text \<open>
  C1, amended: for every triggered registered job that is run with the interpreter of the
  virtual environment, the job runner invokes the archive manager on the output folder of
  the job exactly when the call of the job process returns, whatever the exit code: the
  thread then logs the compression result and leaves the file system the archive manager
  left. When the call raises (time-out, failed launch), the archive manager is not
  invoked and the file system is the one the process left. The exit code is never
  inspected.
\<close>

theorem run_in_thread_archives_on_completion:
  assumes "map_of SCRIPT_PATHS script_name = Some script_path"
    and "path_exists fs python_exe"
  shows
    "(\<forall>result fs1.
         subprocess_run [python_exe, script_path] (Some (dirname script_path)) 300 fs = (Inr result, fs1) \<longrightarrow>
         (let r = compress_folder enc (file_manager home) now fs1 script_name
          in run_in_thread enc subprocess_run home now script_name script_path fs =
               ([MsgScriptStart script_name, MsgScriptDone script_name, MsgOutput (stdout result)] @
                fst (snd r) @ [MsgCompressResult (fst (snd (fst r)))] @
                (if stderr result \<noteq> [] then [MsgStderr (stderr result)] else []),
                snd (snd r)) \<and>
             compress_results (fst (run_in_thread enc subprocess_run home now script_name script_path fs)) =
               [fst (snd (fst r))])) \<and>
     (\<forall>e fs1.
         subprocess_run [python_exe, script_path] (Some (dirname script_path)) 300 fs = (Inl e, fs1) \<longrightarrow>
         snd (run_in_thread enc subprocess_run home now script_name script_path fs) = fs1 \<and>
         compress_results (fst (run_in_thread enc subprocess_run home now script_name script_path fs)) = [])"
proof -
  from assms(1) have sn: "script_name = ''contents'' \<or> script_name = ''comments''"
    by (auto simp: SCRIPT_PATHS_def split: if_splits)
  have a: "run_in_thread enc subprocess_run home now script_name script_path fs =
                 ([MsgScriptStart script_name, MsgScriptDone script_name, MsgOutput (stdout result)] @
                  fst (snd (compress_folder enc (file_manager home) now fs1 script_name)) @
                  [MsgCompressResult (fst (snd (fst (compress_folder enc (file_manager home) now fs1 script_name))))] @
                  (if stderr result \<noteq> [] then [MsgStderr (stderr result)] else []),
                  snd (snd (compress_folder enc (file_manager home) now fs1 script_name)))"
    if "subprocess_run [python_exe, script_path] (Some (dirname script_path)) 300 fs = (Inr result, fs1)"
    for result fs1
    using that sn assms(2)
    by (auto simp: run_in_thread_def run_in_thread_try_def Let_def python_exe_def
          compress_contents_def compress_comments_def split: prod.splits)
  have a': "compress_results (fst (run_in_thread enc subprocess_run home now script_name script_path fs)) =
              [fst (snd (fst (compress_folder enc (file_manager home) now fs1 script_name)))]"
    if "subprocess_run [python_exe, script_path] (Some (dirname script_path)) 300 fs = (Inr result, fs1)"
    for result fs1
    by (simp add: a[OF that] compress_folder_prints)
  have b: "snd (run_in_thread enc subprocess_run home now script_name script_path fs) = fs1 \<and>
           compress_results (fst (run_in_thread enc subprocess_run home now script_name script_path fs)) = []"
    if "subprocess_run [python_exe, script_path] (Some (dirname script_path)) 300 fs = (Inl e, fs1)"
    for e fs1
    using that assms(2)
    by (auto simp: run_in_thread_def run_in_thread_try_def Let_def python_exe_def split: exn.splits)
  show ?thesis unfolding Let_def using a a' b by blast
qed

theorem run_in_thread_archives_on_completion_witness:
  "run_in_thread enc0 (sp_exit 0) home0 2000000 ''contents'' [''D:'', ''AutoViewScript'', ''contents.py''] fs_job =
     ([MsgScriptStart ''contents'', MsgScriptDone ''contents'', MsgOutput ''done'',
       MsgCompressStart (home0 @ [''Desktop'', ''contents'']) (zips_path @ [''contents.zip'']),
       MsgCompressed ''contents.zip'' 2 3,
       MsgCompressResult (MsgCompressed ''contents.zip'' 2 3)], fs_job_archived) \<and>
   run_in_thread enc0 (sp_exit 3) home0 2000000 ''contents'' [''D:'', ''AutoViewScript'', ''contents.py''] fs_job =
     run_in_thread enc0 (sp_exit 0) home0 2000000 ''contents'' [''D:'', ''AutoViewScript'', ''contents.py''] fs_job \<and>
   snd (run_in_thread enc0 (sp_raise TimeoutExpired) home0 2000000 ''contents''
          [''D:'', ''AutoViewScript'', ''contents.py''] fs_job) = fs_job"
proof -
  let ?p = "[''D:'', ''AutoViewScript'', ''contents.py'']"
  have r: "map_of SCRIPT_PATHS ''contents'' = Some ?p"
    by (simp add: SCRIPT_PATHS_def)
  have c: "compress_folder enc0 (file_manager home0) 2000000 fs_job ''contents'' =
     ((True, MsgCompressed ''contents.zip'' 2 3, Some (zips_path @ [''contents.zip''])),
      [MsgCompressStart (home0 @ [''Desktop'', ''contents'']) (zips_path @ [''contents.zip'']),
       MsgCompressed ''contents.zip'' 2 3],
      fs_job_archived)"
    by (simp add: compress_folder_def compress_at_def compress_try_def file_manager_def FileManager_def
          Let_def zip_entries_def relpath_def dirname_def getsize_def enc0_def fs_job_def
          fs_job_archived_def mk_fs_def zips_path_def home0_def)
  have v: "path_exists fs_job python_exe"
    by (simp add: path_exists_def fs_job_def mk_fs_def venv_path_def python_exe_def)
  note t0 = run_in_thread_archives_on_completion[OF r v, of "sp_exit 0" enc0 home0 2000000]
  note t3 = run_in_thread_archives_on_completion[OF r v, of "sp_exit 3" enc0 home0 2000000]
  note tt = run_in_thread_archives_on_completion[OF r v, of "sp_raise TimeoutExpired" enc0 home0 2000000]
  have 1: "run_in_thread enc0 (sp_exit 0) home0 2000000 ''contents'' ?p fs_job =
     ([MsgScriptStart ''contents'', MsgScriptDone ''contents'', MsgOutput ''done'',
       MsgCompressStart (home0 @ [''Desktop'', ''contents'']) (zips_path @ [''contents.zip'']),
       MsgCompressed ''contents.zip'' 2 3,
       MsgCompressResult (MsgCompressed ''contents.zip'' 2 3)], fs_job_archived)"
    using t0 c by (simp add: Let_def sp_exit_def)
  have 2: "run_in_thread enc0 (sp_exit 3) home0 2000000 ''contents'' ?p fs_job =
     ([MsgScriptStart ''contents'', MsgScriptDone ''contents'', MsgOutput ''done'',
       MsgCompressStart (home0 @ [''Desktop'', ''contents'']) (zips_path @ [''contents.zip'']),
       MsgCompressed ''contents.zip'' 2 3,
       MsgCompressResult (MsgCompressed ''contents.zip'' 2 3)], fs_job_archived)"
    using t3 c by (simp add: Let_def sp_exit_def)
  have 3: "snd (run_in_thread enc0 (sp_raise TimeoutExpired) home0 2000000 ''contents'' ?p fs_job) = fs_job"
    using tt by (simp add: sp_raise_def)
  from 1 2 3 show ?thesis by simp
qed

section \<open>C8: failures stay inside the job thread\<close>

text \<open>
  C8: every failure inside the job thread is caught there and only logged. The job
  process is started with the time-out of 300 seconds; when the call raises
  \<open>TimeoutExpired\<close> the thread logs the time-out line, when it raises anything else (a
  failed launch) the thread logs the error line, in both branches of the interpreter
  choice, and the thread ends normally with the file system the process left. An
  exception inside \<^verbatim>\<open>compress_folder\<close> is turned into a failure result there, and a
  failure result of the archive manager is logged by the thread, which again ends
  normally. The thread returns its log and the file system, never an exception.
\<close>

theorem run_in_thread_contains_failures:
  "(\<forall>e fs1. path_exists fs python_exe \<and>
        subprocess_run [python_exe, script_path] (Some (dirname script_path)) 300 fs = (Inl e, fs1) \<longrightarrow>
        run_in_thread enc subprocess_run home now script_name script_path fs =
          ([MsgScriptStart script_name,
            if e = TimeoutExpired then MsgTimeout script_name else MsgScriptError e], fs1)) \<and>
   (\<forall>e fs1. \<not> path_exists fs python_exe \<and>
        subprocess_run [[''python''], script_path] None 300 fs = (Inl e, fs1) \<longrightarrow>
        run_in_thread enc subprocess_run home now script_name script_path fs =
          ([if e = TimeoutExpired then MsgTimeout script_name else MsgScriptError e], fs1)) \<and>
   (\<forall>e out fs' folder z.
        compress_try enc now fs folder z (zips_path @ [z]) = Inl (e, out, fs') \<longrightarrow>
        compress_at enc now fs folder z =
          ((False, MsgCompressFailed e, None), out @ [MsgCompressFailed e], fs')) \<and>
   (\<forall>result fs1 message zip_path printed fs2.
        path_exists fs python_exe \<and>
        subprocess_run [python_exe, script_path] (Some (dirname script_path)) 300 fs = (Inr result, fs1) \<and>
        compress_folder enc (file_manager home) now fs1
          (if script_name = ''contents'' then ''contents'' else ''comments'') =
          ((False, message, zip_path), printed, fs2) \<longrightarrow>
        run_in_thread enc subprocess_run home now script_name script_path fs =
          ([MsgScriptStart script_name, MsgScriptDone script_name, MsgOutput (stdout result)] @
           printed @ [MsgCompressResult message] @
           (if stderr result \<noteq> [] then [MsgStderr (stderr result)] else []), fs2))"
proof (intro conjI allI impI)
  fix e fs1
  assume "path_exists fs python_exe \<and>
        subprocess_run [python_exe, script_path] (Some (dirname script_path)) 300 fs = (Inl e, fs1)"
  then show "run_in_thread enc subprocess_run home now script_name script_path fs =
          ([MsgScriptStart script_name,
            if e = TimeoutExpired then MsgTimeout script_name else MsgScriptError e], fs1)"
    by (cases e) (simp_all add: run_in_thread_def run_in_thread_try_def Let_def python_exe_def)
next
  fix e fs1
  assume "\<not> path_exists fs python_exe \<and>
        subprocess_run [[''python''], script_path] None 300 fs = (Inl e, fs1)"
  then show "run_in_thread enc subprocess_run home now script_name script_path fs =
          ([if e = TimeoutExpired then MsgTimeout script_name else MsgScriptError e], fs1)"
    by (cases e) (simp_all add: run_in_thread_def run_in_thread_try_def Let_def python_exe_def)
next
  fix e out fs' folder z
  assume "compress_try enc now fs folder z (zips_path @ [z]) = Inl (e, out, fs')"
  then show "compress_at enc now fs folder z =
          ((False, MsgCompressFailed e, None), out @ [MsgCompressFailed e], fs')"
    by (simp add: compress_at_def Let_def)
next
  fix result fs1 message zip_path printed fs2
  assume "path_exists fs python_exe \<and>
        subprocess_run [python_exe, script_path] (Some (dirname script_path)) 300 fs = (Inr result, fs1) \<and>
        compress_folder enc (file_manager home) now fs1
          (if script_name = ''contents'' then ''contents'' else ''comments'') =
          ((False, message, zip_path), printed, fs2)"
  then show "run_in_thread enc subprocess_run home now script_name script_path fs =
          ([MsgScriptStart script_name, MsgScriptDone script_name, MsgOutput (stdout result)] @
           printed @ [MsgCompressResult message] @
           (if stderr result \<noteq> [] then [MsgStderr (stderr result)] else []), fs2)"
    by (auto simp: run_in_thread_def run_in_thread_try_def Let_def python_exe_def
          compress_contents_def compress_comments_def split: if_splits)
qed

theorem run_in_thread_contains_failures_witness:
  "run_in_thread enc0 (sp_raise TimeoutExpired) home0 2000000 ''contents''
     [''D:'', ''AutoViewScript'', ''contents.py''] fs_job =
     ([MsgScriptStart ''contents'', MsgTimeout ''contents''], fs_job) \<and>
   run_in_thread enc0 (sp_raise (FileNotFoundError [''python''])) home0 2000000 ''comments''
     [''D:'', ''AutoViewScript'', ''comments.py''] fs_comments =
     ([MsgScriptError (FileNotFoundError [''python''])], fs_comments) \<and>
   run_in_thread enc0 (sp_exit 0) home0 2000000 ''contents''
     [''D:'', ''AutoViewScript'', ''contents.py''] fs_no_store =
     ([MsgScriptStart ''contents'', MsgScriptDone ''contents'', MsgOutput ''done'',
       MsgCompressStart (home0 @ [''Desktop'', ''contents'']) (zips_path @ [''contents.zip'']),
       MsgCompressFailed (FileNotFoundError (zips_path @ [''contents.zip''])),
       MsgCompressResult (MsgCompressFailed (FileNotFoundError (zips_path @ [''contents.zip''])))],
      fs_no_store)"
proof -
  let ?p = "[''D:'', ''AutoViewScript'', ''contents.py'']"
  let ?q = "[''D:'', ''AutoViewScript'', ''comments.py'']"
  have v: "path_exists fs_job python_exe"
    by (simp add: path_exists_def fs_job_def mk_fs_def venv_path_def python_exe_def)
  have nv: "\<not> path_exists fs_comments python_exe"
    by (simp add: path_exists_def fs_comments_def mk_fs_def venv_path_def python_exe_def)
  have vs: "path_exists fs_no_store python_exe"
    by (simp add: path_exists_def fs_no_store_def venv_path_def python_exe_def)
  have c: "compress_folder enc0 (file_manager home0) 2000000 fs_no_store
             (if ''contents'' = ''contents'' then ''contents'' else ''comments'') =
     ((False, MsgCompressFailed (FileNotFoundError (zips_path @ [''contents.zip''])), None),
      [MsgCompressStart (home0 @ [''Desktop'', ''contents'']) (zips_path @ [''contents.zip'']),
       MsgCompressFailed (FileNotFoundError (zips_path @ [''contents.zip'']))],
      fs_no_store)"
    by (simp add: compress_folder_def compress_at_def compress_try_def file_manager_def FileManager_def
          Let_def fs_no_store_def zips_path_def home0_def)
  have s1: "sp_raise TimeoutExpired [python_exe, ?p] (Some (dirname ?p)) 300 fs_job = (Inl TimeoutExpired, fs_job)"
    by (simp add: sp_raise_def)
  have s2: "sp_raise (FileNotFoundError [''python'']) [[''python''], ?q] None 300 fs_comments =
      (Inl (FileNotFoundError [''python'']), fs_comments)"
    by (simp add: sp_raise_def)
  have s3: "sp_exit 0 [python_exe, ?p] (Some (dirname ?p)) 300 fs_no_store =
      (Inr \<lparr>returncode = 0, stdout = ''done'', stderr = []\<rparr>, fs_no_store)"
    by (simp add: sp_exit_def)
  note t1 = run_in_thread_contains_failures[of fs_job "sp_raise TimeoutExpired" ?p enc0 home0 2000000 "''contents''"]
  note t2 = run_in_thread_contains_failures[of fs_comments "sp_raise (FileNotFoundError [''python''])" ?q enc0 home0 2000000 "''comments''"]
  note t3 = run_in_thread_contains_failures[of fs_no_store "sp_exit 0" ?p enc0 home0 2000000 "''contents''"]
  from t1 v s1 have 1: "run_in_thread enc0 (sp_raise TimeoutExpired) home0 2000000 ''contents'' ?p fs_job =
     ([MsgScriptStart ''contents'', MsgTimeout ''contents''], fs_job)"
    by simp
  from t2 nv s2 have 2: "run_in_thread enc0 (sp_raise (FileNotFoundError [''python''])) home0 2000000 ''comments'' ?q fs_comments =
     ([MsgScriptError (FileNotFoundError [''python''])], fs_comments)"
    by simp
  from t3 vs s3 c have 3: "run_in_thread enc0 (sp_exit 0) home0 2000000 ''contents'' ?p fs_no_store =
     ([MsgScriptStart ''contents'', MsgScriptDone ''contents'', MsgOutput ''done'',
       MsgCompressStart (home0 @ [''Desktop'', ''contents'']) (zips_path @ [''contents.zip'']),
       MsgCompressFailed (FileNotFoundError (zips_path @ [''contents.zip''])),
       MsgCompressResult (MsgCompressFailed (FileNotFoundError (zips_path @ [''contents.zip''])))],
      fs_no_store)"
    by simp
  from 1 2 3 show ?thesis by simp
qed

end
